theory Spec2Isabelle
  imports Main "HOL-Library.Multiset"
begin

section \<open>Data model\<close>

text \<open>
  The pass of \<^verbatim>\<open>src/compiler/LoopSplitterInlining.cpp\<close> works on LLVM IR. The embedding
  keeps what the pass looks at:
  \<^item> a function is identified by its name (names are unique in a module);
  \<^item> an instruction is a call (\<^verbatim>\<open>llvm::CallBase\<close>) or anything else; a call carries
    \<^verbatim>\<open>getCalledFunction()\<close>, which is null for an indirect call;
  \<^item> a basic block is its instruction sequence, a function body the sequence of its
    blocks, and a declaration has no block;
  \<^item> the module maps every function name to its body; the pass mutates the module, so
    every operation takes the module and returns the new one.
  Debug output (\<^verbatim>\<open>HIPSYCL_DEBUG_INFO\<close>, \<^verbatim>\<open>HIPSYCL_DEBUG_WARNING\<close>, \<^verbatim>\<open>llvm::errs\<close>) is not
  part of the model.
\<close>

type_synonym fname = string

datatype instr = Call "fname option" | Other nat

type_synonym block = "instr list"

type_synonym module = "fname \<Rightarrow> block list"

text \<open>\<^verbatim>\<open>SplitterAnnotationInfo\<close>: the two queries the pass makes.\<close>

record SplitterAnnotationInfo =
  isKernelFunc :: "fname \<Rightarrow> bool"
  isSplitterFunc :: "fname \<Rightarrow> bool"

text \<open>
  \<^verbatim>\<open>llvm::Loop\<close>: the blocks of the loop, as indices into the body of the enclosing
  function, and the answer of \<^verbatim>\<open>utils::isWorkItemLoop\<close>. \<^verbatim>\<open>llvm::LoopInfo\<close> is
  represented by the answer of \<^verbatim>\<open>utils::getSingleWorkItemLoop\<close>. Both helpers belong
  to the loop classifier, an external collaborator whose answers are inputs of the pass.
\<close>

record Loop =
  getBlocks :: "nat list"
  isWorkItemLoop :: bool

record LoopInfo =
  getSingleWorkItemLoop :: "Loop option"

datatype PreservedAnalyses = PreservedAll | PreservedSplitterAnnotationAnalysis

text \<open>The block of \<open>F\<close> with index \<open>bi\<close>; an index outside the body denotes no instruction.\<close>

definition blockAt :: "module \<Rightarrow> fname \<Rightarrow> nat \<Rightarrow> block" where
  "blockAt M F bi = (if bi < length (M F) then M F ! bi else [])"

section \<open>Helpers of IRUtils\<close>

text \<open>
  Modelled from the spec: \<^verbatim>\<open>hipsycl::compiler::BarrierIntrinsicName\<close>, the well-known
  canonical barrier-intrinsic name constant, is declared outside the pass. No theorem
  below depends on its spelling.
\<close>

definition BarrierIntrinsicName :: fname where
  "BarrierIntrinsicName = ''__hipsycl_barrier''"

text \<open>
  Modelled from the spec: \<^verbatim>\<open>utils::checkedInlineFunction\<close> is defined outside the pass.
  It inlines the call body into the caller at the call site, replacing the call
  instruction, and reports success. A call to the canonical barrier intrinsic is never
  inlined, and a function without a body cannot be inlined. The result is the
  instruction sequence that takes the place of the call: the callee's instructions in
  block order (the control-flow edges between them are not modelled), or \<open>None\<close> when
  nothing was inlined and the caller is unchanged.
\<close>

definition checkedInlineFunction :: "module \<Rightarrow> fname \<Rightarrow> instr list option" where
  "checkedInlineFunction M t =
     (if M t = [] \<or> t = BarrierIntrinsicName then None else Some (concat (M t)))"

text \<open>
  Modelled from the spec: \<^verbatim>\<open>utils::createBarrier\<close> is defined outside the pass. It
  creates a call to the canonical barrier intrinsic in front of the given instruction;
  the annotation info is only read.
\<close>

definition createBarrier :: instr where
  "createBarrier = Call (Some BarrierIntrinsicName)"

text \<open>
  Modelled from the spec: \<^verbatim>\<open>utils::updateDtAndLi\<close> is defined outside the pass. It
  refreshes dominator tree and loop info after a structural change and returns the
  handle of the loop around the given block. Inlining splices instructions into the
  calling block and keeps the block sequence of the function, so the loop has the
  blocks it had.
\<close>

definition updateDtAndLi :: "Loop \<Rightarrow> Loop" where
  "updateDtAndLi L = L"

section \<open>Call-site inliner\<close>

text \<open>
  One pass of \<^verbatim>\<open>for (auto &I : BB)\<close> in \<^verbatim>\<open>inlineCallsInBasicBlock\<close>: \<open>Some\<close> of the new
  block when an instruction was rewritten (\<^verbatim>\<open>LastChanged = true; break\<close>), \<open>None\<close> when
  the scan reached the end of the block with \<^verbatim>\<open>LastChanged == false\<close>. A failed inlining
  leaves \<^verbatim>\<open>LastChanged\<close> false and the scan goes on with the next instruction.
\<close>

fun scanBlock :: "module \<Rightarrow> fname set \<Rightarrow> SplitterAnnotationInfo \<Rightarrow> block \<Rightarrow> block option" where
  "scanBlock M SplitterCallers SAA [] = None"
| "scanBlock M SplitterCallers SAA (Call (Some t) # rest) =
     (if t \<in> SplitterCallers \<and> \<not> isSplitterFunc SAA t then
        (case checkedInlineFunction M t of
           Some body \<Rightarrow> Some (body @ rest)
         | None \<Rightarrow> map_option ((#) (Call (Some t))) (scanBlock M SplitterCallers SAA rest))
      else if isSplitterFunc SAA t \<and> t \<noteq> BarrierIntrinsicName then
        Some (createBarrier # rest)
      else map_option ((#) (Call (Some t))) (scanBlock M SplitterCallers SAA rest))"
| "scanBlock M SplitterCallers SAA (I # rest) =
     map_option ((#) I) (scanBlock M SplitterCallers SAA rest)"

text \<open>
  The \<^verbatim>\<open>do ... while (LastChanged)\<close> of \<^verbatim>\<open>inlineCallsInBasicBlock\<close>. The loop need not
  end (a recursive callee is inlined for ever), so it runs on fuel: \<open>None\<close> is "no
  result within \<open>n\<close> iterations".
\<close>

fun inlineCallsInBasicBlock_loop ::
  "nat \<Rightarrow> bool \<Rightarrow> module \<Rightarrow> fname \<Rightarrow> nat \<Rightarrow> fname set \<Rightarrow> SplitterAnnotationInfo
   \<Rightarrow> (bool \<times> module) option" where
  "inlineCallsInBasicBlock_loop 0 Changed M F bi SplitterCallers SAA = None"
| "inlineCallsInBasicBlock_loop (Suc n) Changed M F bi SplitterCallers SAA =
     (case scanBlock M SplitterCallers SAA (blockAt M F bi) of
        None \<Rightarrow> Some (Changed, M)
      | Some BB \<Rightarrow>
          inlineCallsInBasicBlock_loop n True (M(F := (M F)[bi := BB])) F bi SplitterCallers SAA)"

definition inlineCallsInBasicBlock ::
  "nat \<Rightarrow> module \<Rightarrow> fname \<Rightarrow> nat \<Rightarrow> fname set \<Rightarrow> SplitterAnnotationInfo
   \<Rightarrow> (bool \<times> module) option" where
  "inlineCallsInBasicBlock n M F bi SplitterCallers SAA =
     inlineCallsInBasicBlock_loop n False M F bi SplitterCallers SAA"

text \<open>
  The \<^verbatim>\<open>for\<close> over blocks that \<^verbatim>\<open>inlineCallsInLoop\<close> and \<^verbatim>\<open>inlineCallsInFunction\<close>
  share: blocks are visited in order until one reports a change (\<^verbatim>\<open>break\<close>).
\<close>

fun inlineCallsInBlocks ::
  "nat \<Rightarrow> module \<Rightarrow> fname \<Rightarrow> nat list \<Rightarrow> fname set \<Rightarrow> SplitterAnnotationInfo
   \<Rightarrow> (bool \<times> module) option" where
  "inlineCallsInBlocks n M F [] SplitterCallers SAA = Some (False, M)"
| "inlineCallsInBlocks n M F (bi # bis) SplitterCallers SAA =
     (case inlineCallsInBasicBlock n M F bi SplitterCallers SAA of
        None \<Rightarrow> None
      | Some (LastChanged, M') \<Rightarrow>
          if LastChanged then Some (True, M')
          else inlineCallsInBlocks n M' F bis SplitterCallers SAA)"

text \<open>
  \<^verbatim>\<open>inlineCallsInLoop\<close>. \<open>F\<close> is the function that owns the loop's blocks
  (\<^verbatim>\<open>B->getParent()\<close>); the loop handle is replaced after every change.
\<close>

fun inlineCallsInLoop_loop ::
  "nat \<Rightarrow> bool \<Rightarrow> module \<Rightarrow> fname \<Rightarrow> Loop \<Rightarrow> fname set \<Rightarrow> SplitterAnnotationInfo
   \<Rightarrow> (bool \<times> module) option" where
  "inlineCallsInLoop_loop 0 Changed M F L SplitterCallers SAA = None"
| "inlineCallsInLoop_loop (Suc n) Changed M F L SplitterCallers SAA =
     (case inlineCallsInBlocks n M F (getBlocks L) SplitterCallers SAA of
        None \<Rightarrow> None
      | Some (LastChanged, M') \<Rightarrow>
          if LastChanged
          then inlineCallsInLoop_loop n True M' F (updateDtAndLi L) SplitterCallers SAA
          else Some (Changed, M'))"

definition inlineCallsInLoop ::
  "nat \<Rightarrow> module \<Rightarrow> fname \<Rightarrow> Loop \<Rightarrow> fname set \<Rightarrow> SplitterAnnotationInfo
   \<Rightarrow> (bool \<times> module) option" where
  "inlineCallsInLoop n M F L SplitterCallers SAA =
     inlineCallsInLoop_loop n False M F L SplitterCallers SAA"

text \<open>\<^verbatim>\<open>inlineCallsInFunction\<close>: the same iteration over all blocks of \<open>F\<close>.\<close>

fun inlineCallsInFunction_loop ::
  "nat \<Rightarrow> bool \<Rightarrow> module \<Rightarrow> fname \<Rightarrow> fname set \<Rightarrow> SplitterAnnotationInfo
   \<Rightarrow> (bool \<times> module) option" where
  "inlineCallsInFunction_loop 0 Changed M F SplitterCallers SAA = None"
| "inlineCallsInFunction_loop (Suc n) Changed M F SplitterCallers SAA =
     (case inlineCallsInBlocks n M F [0 ..< length (M F)] SplitterCallers SAA of
        None \<Rightarrow> None
      | Some (LastChanged, M') \<Rightarrow>
          if LastChanged
          then inlineCallsInFunction_loop n True M' F SplitterCallers SAA
          else Some (Changed, M'))"

definition inlineCallsInFunction ::
  "nat \<Rightarrow> module \<Rightarrow> fname \<Rightarrow> fname set \<Rightarrow> SplitterAnnotationInfo
   \<Rightarrow> (bool \<times> module) option" where
  "inlineCallsInFunction n M F SplitterCallers SAA =
     inlineCallsInFunction_loop n False M F SplitterCallers SAA"

section \<open>Transitive splitter-caller finder\<close>

text \<open>
  \<^verbatim>\<open>fillTransitiveSplitterCallers(ArrayRef<BasicBlock*>, ...)\<close>: every call with a
  resolved target is handed to the overload for functions, here the argument \<open>rec\<close>
  (the source declares it ahead); \<^verbatim>\<open>Found\<close> is the disjunction of the answers and no
  call is skipped. The set \<^verbatim>\<open>FuncsWSplitter\<close> is threaded through.
\<close>

fun fillTransitiveSplitterCallers_Instrs ::
  "(fname \<Rightarrow> fname set \<Rightarrow> (bool \<times> fname set) option) \<Rightarrow> instr list \<Rightarrow> fname set
   \<Rightarrow> (bool \<times> fname set) option" where
  "fillTransitiveSplitterCallers_Instrs rec [] FuncsWSplitter = Some (False, FuncsWSplitter)"
| "fillTransitiveSplitterCallers_Instrs rec (Call (Some t) # rest) FuncsWSplitter =
     (case rec t FuncsWSplitter of
        None \<Rightarrow> None
      | Some (b, S1) \<Rightarrow>
          (case fillTransitiveSplitterCallers_Instrs rec rest S1 of
             None \<Rightarrow> None
           | Some (Found, S2) \<Rightarrow> Some (b \<or> Found, S2)))"
| "fillTransitiveSplitterCallers_Instrs rec (I # rest) FuncsWSplitter =
     fillTransitiveSplitterCallers_Instrs rec rest FuncsWSplitter"

definition fillTransitiveSplitterCallers_Blocks ::
  "(fname \<Rightarrow> fname set \<Rightarrow> (bool \<times> fname set) option) \<Rightarrow> block list \<Rightarrow> fname set
   \<Rightarrow> (bool \<times> fname set) option" where
  "fillTransitiveSplitterCallers_Blocks rec Blocks FuncsWSplitter =
     fillTransitiveSplitterCallers_Instrs rec (concat Blocks) FuncsWSplitter"

text \<open>
  \<^verbatim>\<open>fillTransitiveSplitterCallers(Function&, ...)\<close>. The recursion follows the call
  graph and does not end on a recursive one, so it runs on fuel: \<open>None\<close> is "call depth
  \<open>n\<close> exceeded". The warning for a declaration that is not an intrinsic is debug
  output; the traversal goes on and finds no call in it.
\<close>

primrec fillTransitiveSplitterCallers ::
  "nat \<Rightarrow> module \<Rightarrow> SplitterAnnotationInfo \<Rightarrow> fname \<Rightarrow> fname set \<Rightarrow> (bool \<times> fname set) option" where
  "fillTransitiveSplitterCallers 0 M SAA = (\<lambda>F FuncsWSplitter. None)"
| "fillTransitiveSplitterCallers (Suc n) M SAA = (\<lambda>F FuncsWSplitter.
     if isSplitterFunc SAA F then Some (True, insert F FuncsWSplitter)
     else if F \<in> FuncsWSplitter then Some (True, FuncsWSplitter)
     else (case fillTransitiveSplitterCallers_Blocks (fillTransitiveSplitterCallers n M SAA)
                 (M F) FuncsWSplitter of
             None \<Rightarrow> None
           | Some (Found, S) \<Rightarrow> if Found then Some (True, insert F S) else Some (False, S)))"

text \<open>\<^verbatim>\<open>fillTransitiveSplitterCallers(Loop&, ...)\<close>: the blocks of the loop.\<close>

definition fillTransitiveSplitterCallers_Loop ::
  "nat \<Rightarrow> module \<Rightarrow> SplitterAnnotationInfo \<Rightarrow> fname \<Rightarrow> Loop \<Rightarrow> fname set
   \<Rightarrow> (bool \<times> fname set) option" where
  "fillTransitiveSplitterCallers_Loop n M SAA F L FuncsWSplitter =
     fillTransitiveSplitterCallers_Blocks (fillTransitiveSplitterCallers n M SAA)
       (map (blockAt M F) (getBlocks L)) FuncsWSplitter"

section \<open>Pass driver\<close>

text \<open>\<^verbatim>\<open>inlineSplitter(llvm::Loop *L, ...)\<close>.\<close>

definition inlineSplitter_Loop ::
  "nat \<Rightarrow> module \<Rightarrow> fname \<Rightarrow> Loop \<Rightarrow> SplitterAnnotationInfo \<Rightarrow> (bool \<times> module) option" where
  "inlineSplitter_Loop n M F L SAA =
     (if \<not> isWorkItemLoop L then Some (False, M)
      else (case fillTransitiveSplitterCallers_Loop n M SAA F L {} of
              None \<Rightarrow> None
            | Some (Found, SplitterCallers) \<Rightarrow>
                if \<not> Found then Some (False, M)
                else inlineCallsInLoop n M F L SplitterCallers SAA))"

text \<open>\<^verbatim>\<open>inlineSplitter(llvm::Function &F, ...)\<close>.\<close>

definition inlineSplitter ::
  "nat \<Rightarrow> module \<Rightarrow> fname \<Rightarrow> LoopInfo \<Rightarrow> SplitterAnnotationInfo \<Rightarrow> (bool \<times> module) option" where
  "inlineSplitter n M F LI SAA =
     (case getSingleWorkItemLoop LI of
        Some L \<Rightarrow> inlineSplitter_Loop n M F L SAA
      | None \<Rightarrow>
          (case fillTransitiveSplitterCallers n M SAA F {} of
             None \<Rightarrow> None
           | Some (Found, SplitterCallers) \<Rightarrow>
               if \<not> Found then Some (False, M)
               else inlineCallsInFunction n M F SplitterCallers SAA))"

text \<open>\<^verbatim>\<open>LoopSplitterInliningPassLegacy::runOnFunction\<close>: the result is "changed".\<close>

definition runOnFunction ::
  "nat \<Rightarrow> module \<Rightarrow> fname \<Rightarrow> LoopInfo \<Rightarrow> SplitterAnnotationInfo \<Rightarrow> (bool \<times> module) option" where
  "runOnFunction n M F LI SAA =
     (if \<not> isKernelFunc SAA F then Some (False, M) else inlineSplitter n M F LI SAA)"

text \<open>
  \<^verbatim>\<open>LoopSplitterInliningPass::run\<close>: the annotation analysis is the cached result of the
  module analysis manager, which may be absent. The proxy of the module analysis manager
  itself is taken to be cached: the source dereferences it unchecked.
\<close>

definition run ::
  "nat \<Rightarrow> module \<Rightarrow> fname \<Rightarrow> LoopInfo \<Rightarrow> SplitterAnnotationInfo option
   \<Rightarrow> (PreservedAnalyses \<times> module) option" where
  "run n M F LI SAAopt =
     (case SAAopt of
        None \<Rightarrow> Some (PreservedAll, M)
      | Some SAA \<Rightarrow>
          if \<not> isKernelFunc SAA F then Some (PreservedAll, M)
          else (case inlineSplitter n M F LI SAA of
                  None \<Rightarrow> None
                | Some (Changed, M') \<Rightarrow>
                    if \<not> Changed then Some (PreservedAll, M')
                    else Some (PreservedSplitterAnnotationAnalysis, M')))"

section \<open>Notions the specification uses\<close>

text \<open>
  The scopes of the driver as section 4.4 of the specification words them: the finder
  and the inliner restricted to the blocks of a loop, and both over the whole body of
  the function. They are compared with \<open>inlineSplitter\<close> below.
\<close>

definition loopScopedTransformation ::
  "nat \<Rightarrow> module \<Rightarrow> fname \<Rightarrow> Loop \<Rightarrow> SplitterAnnotationInfo \<Rightarrow> (bool \<times> module) option" where
  "loopScopedTransformation n M F L SAA =
     (case fillTransitiveSplitterCallers_Loop n M SAA F L {} of
        None \<Rightarrow> None
      | Some (Found, SplitterCallers) \<Rightarrow>
          if Found then inlineCallsInLoop n M F L SplitterCallers SAA else Some (False, M))"

definition functionScopedTransformation ::
  "nat \<Rightarrow> module \<Rightarrow> fname \<Rightarrow> SplitterAnnotationInfo \<Rightarrow> (bool \<times> module) option" where
  "functionScopedTransformation n M F SAA =
     (case fillTransitiveSplitterCallers n M SAA F {} of
        None \<Rightarrow> None
      | Some (Found, SplitterCallers) \<Rightarrow>
          if Found then inlineCallsInFunction n M F SplitterCallers SAA else Some (False, M))"

text \<open>The statically resolved targets of the calls in an instruction sequence.\<close>

fun calledFunctions :: "instr list \<Rightarrow> fname list" where
  "calledFunctions [] = []"
| "calledFunctions (Call (Some t) # rest) = t # calledFunctions rest"
| "calledFunctions (I # rest) = calledFunctions rest"

text \<open>
  The call graph of a module: \<open>callEdges\<close> has an edge for every direct call;
  \<open>nsEdges\<close> keeps the edges that leave a function not annotated as a splitter.
\<close>

definition callees :: "module \<Rightarrow> fname \<Rightarrow> fname set" where
  "callees M f = set (calledFunctions (concat (M f)))"

definition callEdges :: "module \<Rightarrow> (fname \<times> fname) set" where
  "callEdges M = {(f, g). g \<in> callees M f}"

definition nsEdges :: "module \<Rightarrow> SplitterAnnotationInfo \<Rightarrow> (fname \<times> fname) set" where
  "nsEdges M SAA = {(f, g). \<not> isSplitterFunc SAA f \<and> g \<in> callees M f}"

text \<open>A function that is annotated as a splitter or transitively calls one.\<close>

definition splitterCaller :: "module \<Rightarrow> SplitterAnnotationInfo \<Rightarrow> fname \<Rightarrow> bool" where
  "splitterCaller M SAA g \<longleftrightarrow>
     isSplitterFunc SAA g \<or> (\<exists>s. isSplitterFunc SAA s \<and> (g, s) \<in> (callEdges M)\<^sup>+)"

text \<open>
  The SplitterSet of a scope as the specification states it: the splitter callers
  reachable from the scope through direct calls. A function scope starts at the
  function, a block scope at the targets of the calls in the blocks.
\<close>

definition specSplitterSet_Function :: "module \<Rightarrow> SplitterAnnotationInfo \<Rightarrow> fname \<Rightarrow> fname set" where
  "specSplitterSet_Function M SAA F =
     {g. (F, g) \<in> (callEdges M)\<^sup>* \<and> splitterCaller M SAA g}"

definition specSplitterSet_Blocks ::
  "module \<Rightarrow> SplitterAnnotationInfo \<Rightarrow> block list \<Rightarrow> fname set" where
  "specSplitterSet_Blocks M SAA Blocks =
     {g. \<exists>c \<in> set (calledFunctions (concat Blocks)).
           (c, g) \<in> (callEdges M)\<^sup>* \<and> splitterCaller M SAA g}"

text \<open>
  The set the traversal builds: the same, over paths that do not continue through the
  body of a function annotated as a splitter.
\<close>

definition splitterSet_Function :: "module \<Rightarrow> SplitterAnnotationInfo \<Rightarrow> fname \<Rightarrow> fname set" where
  "splitterSet_Function M SAA F =
     {g. (F, g) \<in> (nsEdges M SAA)\<^sup>* \<and> splitterCaller M SAA g}"

definition splitterSet_Blocks ::
  "module \<Rightarrow> SplitterAnnotationInfo \<Rightarrow> block list \<Rightarrow> fname set" where
  "splitterSet_Blocks M SAA Blocks =
     {g. \<exists>c \<in> set (calledFunctions (concat Blocks)).
           (c, g) \<in> (nsEdges M SAA)\<^sup>* \<and> splitterCaller M SAA g}"

text \<open>
  The invariant of the set \<^verbatim>\<open>FuncsWSplitter\<close> during the traversal: every member is a
  splitter caller, and the set is closed under the splitter callers that a member not
  annotated as a splitter calls.
\<close>

definition splitterClosed :: "module \<Rightarrow> SplitterAnnotationInfo \<Rightarrow> fname set \<Rightarrow> bool" where
  "splitterClosed M SAA S \<longleftrightarrow>
     (\<forall>g \<in> S. splitterCaller M SAA g \<and>
        (\<forall>h. (g, h) \<in> nsEdges M SAA \<longrightarrow> splitterCaller M SAA h \<longrightarrow> h \<in> S))"

text \<open>
  What a run of the inliner on the blocks \<open>bis\<close> of \<open>F\<close> leaves alone: the other functions, the
  number of blocks of \<open>F\<close>, and the blocks of \<open>F\<close> outside \<open>bis\<close>.
\<close>

definition frame :: "module \<Rightarrow> fname \<Rightarrow> nat set \<Rightarrow> module \<Rightarrow> bool" where
  "frame M F bis X \<longleftrightarrow>
     (\<forall>g. g \<noteq> F \<longrightarrow> X g = M g) \<and> length (X F) = length (M F) \<and>
     (\<forall>bj. bj \<notin> bis \<longrightarrow> blockAt X F bj = blockAt M F bj)"

text \<open>
  The invariant of a run of the inliner on the blocks \<open>bis\<close> of \<open>F\<close>, started in module
  \<open>M\<close>: besides the frame, every call in a block of the scope targets the canonical
  barrier intrinsic or a function that a call of the scope reached at the start,
  through functions not annotated as a splitter.
\<close>

definition reachableCalls ::
  "module \<Rightarrow> SplitterAnnotationInfo \<Rightarrow> fname \<Rightarrow> nat set \<Rightarrow> fname set" where
  "reachableCalls M SAA F bis =
     {t. \<exists>bi \<in> bis. \<exists>c. Call (Some c) \<in> set (blockAt M F bi) \<and> (c, t) \<in> (nsEdges M SAA)\<^sup>*}"

definition inlinerInv ::
  "module \<Rightarrow> SplitterAnnotationInfo \<Rightarrow> fname \<Rightarrow> nat set \<Rightarrow> module \<Rightarrow> bool" where
  "inlinerInv M SAA F bis X \<longleftrightarrow>
     frame M F bis X \<and>
     (\<forall>bi \<in> bis. \<forall>t. Call (Some t) \<in> set (blockAt X F bi) \<longrightarrow>
        t = BarrierIntrinsicName \<or> t \<in> reachableCalls M SAA F bis)"

text \<open>
  The measure that decreases with every rewrite of the inliner, for a ranking of the
  functions that decreases along calls: the multiset of the weights of the calls in
  \<open>F\<close>, where a call to the canonical barrier intrinsic weighs nothing.
\<close>

definition callWeight :: "(fname \<Rightarrow> nat) \<Rightarrow> fname \<Rightarrow> nat" where
  "callWeight rank t = (if t = BarrierIntrinsicName then 0 else Suc (rank t))"

definition callMeasure :: "(fname \<Rightarrow> nat) \<Rightarrow> module \<Rightarrow> fname \<Rightarrow> nat multiset" where
  "callMeasure rank X F = mset (map (callWeight rank) (calledFunctions (concat (X F))))"

text \<open>
  The block that the rules of section 4.2 of the specification lead to, written as a
  function of the block at the start: every call that the inliner is to inline (target in
  the splitterCallerSet, not annotated as a splitter, inlining possible) is replaced by
  the expansion of the callee's body; every call to a function annotated as a splitter
  and not named as the canonical barrier intrinsic is replaced, in place, by a call to
  the intrinsic; every other instruction stays. \<open>expandCall d\<close> expands a call through
  \<open>d\<close> levels of calls, and \<open>sub\<close> is the expansion used for the calls of the
  sequence.
\<close>

fun expandInstrs ::
  "(fname \<Rightarrow> instr list) \<Rightarrow> module \<Rightarrow> fname set \<Rightarrow> SplitterAnnotationInfo \<Rightarrow> instr list
   \<Rightarrow> instr list" where
  "expandInstrs sub M SplitterCallers SAA [] = []"
| "expandInstrs sub M SplitterCallers SAA (Call (Some t) # rest) =
     (if t \<in> SplitterCallers \<and> \<not> isSplitterFunc SAA t \<and> checkedInlineFunction M t \<noteq> None
      then sub t
      else if isSplitterFunc SAA t \<and> t \<noteq> BarrierIntrinsicName
      then [Call (Some BarrierIntrinsicName)]
      else [Call (Some t)])
     @ expandInstrs sub M SplitterCallers SAA rest"
| "expandInstrs sub M SplitterCallers SAA (I # rest) =
     I # expandInstrs sub M SplitterCallers SAA rest"

primrec expandCall ::
  "nat \<Rightarrow> module \<Rightarrow> fname set \<Rightarrow> SplitterAnnotationInfo \<Rightarrow> fname \<Rightarrow> instr list" where
  "expandCall 0 M SplitterCallers SAA = (\<lambda>t. [Call (Some t)])"
| "expandCall (Suc d) M SplitterCallers SAA = (\<lambda>t.
     expandInstrs (expandCall d M SplitterCallers SAA) M SplitterCallers SAA (concat (M t)))"

definition expandedBlock ::
  "nat \<Rightarrow> module \<Rightarrow> fname set \<Rightarrow> SplitterAnnotationInfo \<Rightarrow> block \<Rightarrow> block" where
  "expandedBlock d M SplitterCallers SAA BB =
     expandInstrs (expandCall d M SplitterCallers SAA) M SplitterCallers SAA BB"

text \<open>
  The body of \<open>F\<close> with the blocks of a scope expanded: all blocks for the function
  scope, the blocks of the loop for the loop scope.
\<close>

definition expandedFunction ::
  "nat \<Rightarrow> module \<Rightarrow> fname \<Rightarrow> fname set \<Rightarrow> SplitterAnnotationInfo \<Rightarrow> block list" where
  "expandedFunction d M F SplitterCallers SAA =
     map (expandedBlock d M SplitterCallers SAA) (M F)"

definition expandedLoop ::
  "nat \<Rightarrow> module \<Rightarrow> fname \<Rightarrow> Loop \<Rightarrow> fname set \<Rightarrow> SplitterAnnotationInfo \<Rightarrow> block list" where
  "expandedLoop d M F L SplitterCallers SAA =
     map (\<lambda>i. if i \<in> set (getBlocks L) then expandedBlock d M SplitterCallers SAA (M F ! i)
               else M F ! i)
       [0 ..< length (M F)]"

section \<open>Example modules\<close>

text \<open>
  The end-to-end scenario of the specification: kernel \<open>K\<close> calls \<open>helper\<close>, which
  calls \<open>barrier_user_named_sync\<close>, annotated as a splitter. In \<open>exModule2\<close> the kernel
  has a second block with the same call.
\<close>

definition exSAA :: SplitterAnnotationInfo where
  "exSAA = \<lparr>isKernelFunc = (\<lambda>f. f = ''K''),
            isSplitterFunc = (\<lambda>f. f = ''barrier_user_named_sync'')\<rparr>"

definition exModule :: module where
  "exModule = (\<lambda>_. [])
     (''K'' := [[Other 0, Call (Some ''helper''), Other 1]],
      ''helper'' := [[Other 2, Call (Some ''barrier_user_named_sync''), Other 3]],
      ''barrier_user_named_sync'' := [[Other 7]])"

definition exModule2 :: module where
  "exModule2 = (\<lambda>_. [])
     (''K'' := [[Call (Some ''helper'')], [Other 0, Call (Some ''helper''), Other 1]],
      ''helper'' := [[Other 2, Call (Some ''barrier_user_named_sync''), Other 3]],
      ''barrier_user_named_sync'' := [[Other 7]])"

definition noLoop :: LoopInfo where
  "noLoop = \<lparr>getSingleWorkItemLoop = None\<rparr>"

definition workItemLoop :: "nat list \<Rightarrow> LoopInfo" where
  "workItemLoop bis = \<lparr>getSingleWorkItemLoop = Some \<lparr>getBlocks = bis, isWorkItemLoop = True\<rparr>\<rparr>"

definition otherLoop :: "nat list \<Rightarrow> LoopInfo" where
  "otherLoop bis = \<lparr>getSingleWorkItemLoop = Some \<lparr>getBlocks = bis, isWorkItemLoop = False\<rparr>\<rparr>"

text \<open>
  Two splitters in a row: the kernel calls the splitter \<open>sync_outer\<close>, whose body calls
  the splitter \<open>sync_inner\<close>.
\<close>

definition exSAA_nested :: SplitterAnnotationInfo where
  "exSAA_nested = \<lparr>isKernelFunc = (\<lambda>f. f = ''K''),
                   isSplitterFunc = (\<lambda>f. f = ''sync_outer'' \<or> f = ''sync_inner'')\<rparr>"

definition exModule_nested :: module where
  "exModule_nested = (\<lambda>_. [])
     (''K'' := [[Call (Some ''sync_outer'')]],
      ''sync_outer'' := [[Call (Some ''sync_inner'')]])"

text \<open>
  A kernel that reaches no splitter: \<open>K\<close> calls \<open>plain\<close>, which calls \<open>leaf\<close>; the
  splitter is called by \<open>other\<close> only.
\<close>

definition exModule_plain :: module where
  "exModule_plain = (\<lambda>_. [])
     (''K'' := [[Other 0, Call (Some ''plain''), Call None]],
      ''plain'' := [[Call (Some ''leaf'')]],
      ''other'' := [[Call (Some ''barrier_user_named_sync'')]])"

section \<open>Evaluation\<close>

lemmas ex_defs = exSAA_def exModule_def exModule2_def noLoop_def workItemLoop_def otherLoop_def
  exSAA_nested_def exModule_nested_def exModule_plain_def
lemmas run_defs = runOnFunction_def run_def inlineSplitter_def inlineSplitter_Loop_def
  inlineCallsInFunction_def inlineCallsInLoop_def inlineCallsInBasicBlock_def
  fillTransitiveSplitterCallers_Loop_def fillTransitiveSplitterCallers_Blocks_def
  loopScopedTransformation_def functionScopedTransformation_def updateDtAndLi_def
  blockAt_def checkedInlineFunction_def createBarrier_def BarrierIntrinsicName_def

section \<open>Entry points\<close>

text \<open>
  C10: in the new-pass-manager entry point, when the SplitterAnnotationAnalysis result
  is not cached for the module, the pass leaves the module as it is and reports all
  analyses preserved, for every function, kernel or not.
\<close>

theorem run_not_cached: "run n M F LI None = Some (PreservedAll, M)"
  by (simp add: run_def)

theorem run_not_cached_witness:
  "run 5 exModule ''K'' noLoop None = Some (PreservedAll, exModule)"
  using run_not_cached [of 5 exModule "''K''" noLoop] by simp

text \<open>
  C6: for a function that the annotation info does not classify as a kernel, both entry
  points leave every instruction as it is and report "no change" (\<open>False\<close>, and all
  analyses preserved).
\<close>

theorem non_kernel_unchanged:
  "\<not> isKernelFunc SAA F \<Longrightarrow>
     runOnFunction n M F LI SAA = Some (False, M) \<and>
     run n M F LI (Some SAA) = Some (PreservedAll, M)"
  by (simp add: runOnFunction_def run_def)

theorem non_kernel_unchanged_witness:
  "\<not> isKernelFunc exSAA ''helper'' \<and>
   runOnFunction 5 exModule ''helper'' noLoop exSAA = Some (False, exModule) \<and>
   run 5 exModule ''helper'' noLoop (Some exSAA) = Some (PreservedAll, exModule)"
proof -
  have h: "\<not> isKernelFunc exSAA ''helper''" by (simp add: exSAA_def)
  show ?thesis using h non_kernel_unchanged [OF h, of 5 exModule noLoop] by simp
qed

section \<open>Scope chosen by the driver\<close>

text \<open>
  C5 as stated fails where a loop is identified and is not classified as a work-item
  loop: the claim has the driver fall back to the whole function, the code returns
  "no change" at once. Kernel \<open>K\<close> of the end-to-end example with such a loop is left as
  it is, while the function-scoped transformation inlines \<open>helper\<close> and lowers the
  barrier.
\<close>

theorem driver_scope_counterexample:
  "isKernelFunc exSAA ''K'' \<and>
   getSingleWorkItemLoop (otherLoop [0]) = Some \<lparr>getBlocks = [0], isWorkItemLoop = False\<rparr> \<and>
   runOnFunction 5 exModule ''K'' (otherLoop [0]) exSAA = Some (False, exModule) \<and>
   functionScopedTransformation 5 exModule ''K'' exSAA =
     Some (True, exModule(''K'' := [[Other 0, Other 2, Call (Some BarrierIntrinsicName), Other 3, Other 1]])) \<and>
   runOnFunction 5 exModule ''K'' (otherLoop [0]) exSAA \<noteq> functionScopedTransformation 5 exModule ''K'' exSAA"
  by (simp add: eval_nat_numeral ex_defs run_defs)

text \<open>
  C5, amended: for a kernel function the driver performs the loop-scoped transformation
  when a loop is identified and classified as a work-item loop, the function-scoped
  transformation when no loop is identified, and nothing at all, reporting "no change",
  when the identified loop is not classified as a work-item loop.
\<close>

theorem driver_scope:
  "isKernelFunc SAA F \<Longrightarrow>
     (getSingleWorkItemLoop LI = Some L \<longrightarrow> isWorkItemLoop L \<longrightarrow>
        runOnFunction n M F LI SAA = loopScopedTransformation n M F L SAA) \<and>
     (getSingleWorkItemLoop LI = None \<longrightarrow>
        runOnFunction n M F LI SAA = functionScopedTransformation n M F SAA) \<and>
     (getSingleWorkItemLoop LI = Some L \<longrightarrow> \<not> isWorkItemLoop L \<longrightarrow>
        runOnFunction n M F LI SAA = Some (False, M))"
  by (auto simp: runOnFunction_def inlineSplitter_def inlineSplitter_Loop_def
      loopScopedTransformation_def functionScopedTransformation_def split: option.splits)

theorem driver_scope_witness:
  "isKernelFunc exSAA ''K'' \<and>
   runOnFunction 5 exModule ''K'' (workItemLoop [0]) exSAA =
     loopScopedTransformation 5 exModule ''K'' \<lparr>getBlocks = [0], isWorkItemLoop = True\<rparr> exSAA \<and>
   runOnFunction 5 exModule ''K'' noLoop exSAA = functionScopedTransformation 5 exModule ''K'' exSAA \<and>
   runOnFunction 5 exModule ''K'' (otherLoop [0]) exSAA = Some (False, exModule)"
proof -
  have k: "isKernelFunc exSAA ''K''" by (simp add: exSAA_def)
  show ?thesis
    using k
      driver_scope [OF k, of "workItemLoop [0]" "\<lparr>getBlocks = [0], isWorkItemLoop = True\<rparr>" 5 exModule]
      driver_scope [OF k, of noLoop "\<lparr>getBlocks = [0], isWorkItemLoop = True\<rparr>" 5 exModule]
      driver_scope [OF k, of "otherLoop [0]" "\<lparr>getBlocks = [0], isWorkItemLoop = False\<rparr>" 5 exModule]
    by (simp add: noLoop_def workItemLoop_def otherLoop_def)
qed

section \<open>One rewrite of the inliner\<close>

lemma scanBlock_append:
  "scanBlock M SC SAA pre = None \<Longrightarrow>
   scanBlock M SC SAA (pre @ post) =
     (case scanBlock M SC SAA post of None \<Rightarrow> None | Some q \<Rightarrow> Some (pre @ q))"
  by (induction M SC SAA pre rule: scanBlock.induct)
     (auto split: option.splits if_splits)

lemma scanBlock_append_Some:
  "scanBlock M SC SAA pre = Some pre' \<Longrightarrow>
   scanBlock M SC SAA (pre @ post) = Some (pre' @ post)"
  by (induction M SC SAA pre arbitrary: pre' rule: scanBlock.induct)
     (auto split: option.splits if_splits)

text \<open>
  C3 as stated fails for a target that is annotated as a splitter and is not named as
  the canonical barrier intrinsic: it is in the computed set and is not the canonical
  intrinsic, yet the call is not inlined but lowered to a barrier-intrinsic call. The
  guard of the code is "not annotated as a splitter".
\<close>

theorem inline_condition_counterexample:
  "fillTransitiveSplitterCallers_Blocks (fillTransitiveSplitterCallers 5 exModule exSAA)
     [[Call (Some ''barrier_user_named_sync'')]] {} = Some (True, {''barrier_user_named_sync''}) \<and>
   ''barrier_user_named_sync'' \<in> {''barrier_user_named_sync''} \<and>
   ''barrier_user_named_sync'' \<noteq> BarrierIntrinsicName \<and>
   concat (exModule ''barrier_user_named_sync'') = [Other 7] \<and>
   scanBlock exModule {''barrier_user_named_sync''} exSAA [Call (Some ''barrier_user_named_sync'')]
     = Some [Call (Some BarrierIntrinsicName)] \<and>
   scanBlock exModule {''barrier_user_named_sync''} exSAA [Call (Some ''barrier_user_named_sync'')]
     \<noteq> Some [Other 7]"
  by (simp add: eval_nat_numeral ex_defs run_defs)

text \<open>
  C3, amended: when the scan reaches a call whose resolved target is in the
  splitterCallerSet, is not annotated as a splitter, is not named as the canonical
  barrier intrinsic and has a body, the call instruction is replaced by the body of the
  callee at the call site.
\<close>

theorem inline_condition:
  "scanBlock M SplitterCallers SAA pre = None \<Longrightarrow> t \<in> SplitterCallers \<Longrightarrow>
   \<not> isSplitterFunc SAA t \<Longrightarrow> t \<noteq> BarrierIntrinsicName \<Longrightarrow> M t \<noteq> [] \<Longrightarrow>
   scanBlock M SplitterCallers SAA (pre @ Call (Some t) # post) = Some (pre @ concat (M t) @ post)"
  by (simp add: scanBlock_append checkedInlineFunction_def)

theorem inline_condition_witness:
  "scanBlock exModule {''K'', ''helper'', ''barrier_user_named_sync''} exSAA [Other 0] = None \<and>
   ''helper'' \<in> {''K'', ''helper'', ''barrier_user_named_sync''} \<and>
   \<not> isSplitterFunc exSAA ''helper'' \<and> ''helper'' \<noteq> BarrierIntrinsicName \<and> exModule ''helper'' \<noteq> [] \<and>
   scanBlock exModule {''K'', ''helper'', ''barrier_user_named_sync''} exSAA [Other 0, Call (Some ''helper''), Other 1]
     = Some [Other 0, Other 2, Call (Some ''barrier_user_named_sync''), Other 3, Other 1]"
proof -
  let ?SC = "{''K'', ''helper'', ''barrier_user_named_sync''}"
  have h1: "scanBlock exModule ?SC exSAA [Other 0] = None" by simp
  have h2: "''helper'' \<in> ?SC" by simp
  have h3: "\<not> isSplitterFunc exSAA ''helper''" by (simp add: exSAA_def)
  have h4: "''helper'' \<noteq> BarrierIntrinsicName" by (simp add: BarrierIntrinsicName_def)
  have h5: "exModule ''helper'' \<noteq> []" by (simp add: exModule_def)
  have e: "concat (exModule ''helper'') = [Other 2, Call (Some ''barrier_user_named_sync''), Other 3]"
    by (simp add: exModule_def)
  have c: "scanBlock exModule ?SC exSAA [Other 0, Call (Some ''helper''), Other 1]
     = Some [Other 0, Other 2, Call (Some ''barrier_user_named_sync''), Other 3, Other 1]"
    using inline_condition [OF h1 h2 h3 h4 h5, of "[Other 1]"]
    by (simp only: e append_Cons append_Nil)
  show ?thesis by (intro conjI h1 h2 h3 h4 h5 c)
qed


section \<open>Fixed points of the inliner\<close>

lemma calledFunctions_set [simp]: "t \<in> set (calledFunctions Is) \<longleftrightarrow> Call (Some t) \<in> set Is"
  by (induction Is rule: calledFunctions.induct) auto

lemma scanBlock_None_iff:
  "scanBlock M SC SAA BB = None \<longleftrightarrow>
     (\<forall>t. Call (Some t) \<in> set BB \<longrightarrow>
        \<not> (t \<in> SC \<and> \<not> isSplitterFunc SAA t \<and> checkedInlineFunction M t \<noteq> None) \<and>
        \<not> (isSplitterFunc SAA t \<and> t \<noteq> BarrierIntrinsicName))"
  by (induction M SC SAA BB rule: scanBlock.induct) (auto split: option.splits)

lemma bb_loop_rule:
  assumes "inlineCallsInBasicBlock_loop n c M F bi SC SAA = Some (c', M')"
    and "P c M"
    and "\<And>c M BB. P c M \<Longrightarrow> scanBlock M SC SAA (blockAt M F bi) = Some BB
           \<Longrightarrow> P True (M(F := (M F)[bi := BB]))"
  shows "P c' M' \<and> scanBlock M' SC SAA (blockAt M' F bi) = None"
  using assms(1,2)
proof (induction n arbitrary: c M)
  case 0
  then show ?case by simp
next
  case (Suc n)
  show ?case
  proof (cases "scanBlock M SC SAA (blockAt M F bi)")
    case None
    with Suc.prems show ?thesis by simp
  next
    case (Some BB)
    with Suc.prems have
      "inlineCallsInBasicBlock_loop n True (M(F := (M F)[bi := BB])) F bi SC SAA = Some (c', M')"
      by simp
    moreover have "P True (M(F := (M F)[bi := BB]))"
      using assms(3) Suc.prems(2) Some by blast
    ultimately show ?thesis by (rule Suc.IH)
  qed
qed

lemma bb_unchanged:
  assumes "inlineCallsInBasicBlock n M F bi SC SAA = Some (False, M')"
  shows "M' = M \<and> scanBlock M SC SAA (blockAt M F bi) = None"
proof -
  have "(\<not> False \<longrightarrow> M' = M) \<and> scanBlock M' SC SAA (blockAt M' F bi) = None"
    using assms unfolding inlineCallsInBasicBlock_def
    by (rule bb_loop_rule [where P = "\<lambda>c X. \<not> c \<longrightarrow> X = M"]) simp_all
  then show ?thesis by auto
qed

lemma bb_rule:
  assumes "inlineCallsInBasicBlock n M F bi SC SAA = Some (c, M')"
    and "P M"
    and "\<And>M BB. P M \<Longrightarrow> scanBlock M SC SAA (blockAt M F bi) = Some BB
           \<Longrightarrow> P (M(F := (M F)[bi := BB]))"
  shows "P M'"
proof -
  have "P M' \<and> scanBlock M' SC SAA (blockAt M' F bi) = None"
    using assms(1) unfolding inlineCallsInBasicBlock_def
    by (rule bb_loop_rule [where P = "\<lambda>c. P"]) (use assms(2,3) in auto)
  then show ?thesis by simp
qed

lemma blocks_rule:
  assumes "inlineCallsInBlocks n M F bis SC SAA = Some (c, M')"
    and "P M"
    and "\<And>M BB bi. P M \<Longrightarrow> bi \<in> set bis \<Longrightarrow> scanBlock M SC SAA (blockAt M F bi) = Some BB
           \<Longrightarrow> P (M(F := (M F)[bi := BB]))"
  shows "P M'"
  using assms
proof (induction bis arbitrary: M)
  case Nil
  then show ?case by simp
next
  case (Cons bi bis)
  from Cons.prems(1) obtain c1 M1 where
    r1: "inlineCallsInBasicBlock n M F bi SC SAA = Some (c1, M1)"
    by (auto split: option.splits)
  have p1: "P M1"
    using r1 Cons.prems(2)
    by (rule bb_rule) (use Cons.prems(3) in auto)
  show ?case
  proof (cases c1)
    case True
    with r1 Cons.prems(1) have "M' = M1" by simp
    with p1 show ?thesis by simp
  next
    case False
    with r1 Cons.prems(1) have "inlineCallsInBlocks n M1 F bis SC SAA = Some (c, M')"
      by simp
    then show ?thesis
      using p1
      by (rule Cons.IH) (use Cons.prems(3) in auto)
  qed
qed

lemma blocks_unchanged:
  "inlineCallsInBlocks n M F bis SC SAA = Some (False, M') \<Longrightarrow>
     M' = M \<and> (\<forall>bi \<in> set bis. scanBlock M SC SAA (blockAt M F bi) = None)"
proof (induction bis)
  case Nil
  then show ?case by simp
next
  case (Cons bi bis)
  from Cons.prems obtain c1 M1 where
    r1: "inlineCallsInBasicBlock n M F bi SC SAA = Some (c1, M1)"
    by (auto split: option.splits)
  with Cons.prems have c1: "\<not> c1" by (auto split: if_splits)
  with r1 have "inlineCallsInBasicBlock n M F bi SC SAA = Some (False, M1)" by simp
  from bb_unchanged [OF this]
  have m1: "M1 = M" "scanBlock M SC SAA (blockAt M F bi) = None" by simp_all
  from Cons.prems r1 c1 m1 have "inlineCallsInBlocks n M F bis SC SAA = Some (False, M')"
    by simp
  with Cons.IH m1 show ?case by simp
qed

lemma loop_rule:
  assumes "inlineCallsInLoop_loop n c M F L SC SAA = Some (c', M')"
    and "P M"
    and "\<And>M BB bi. P M \<Longrightarrow> bi \<in> set (getBlocks L)
           \<Longrightarrow> scanBlock M SC SAA (blockAt M F bi) = Some BB
           \<Longrightarrow> P (M(F := (M F)[bi := BB]))"
  shows "P M' \<and> (\<forall>bi \<in> set (getBlocks L). scanBlock M' SC SAA (blockAt M' F bi) = None)"
  using assms(1,2)
proof (induction n arbitrary: c M)
  case 0
  then show ?case by simp
next
  case (Suc n)
  from Suc.prems(1) obtain c1 M1 where
    r1: "inlineCallsInBlocks n M F (getBlocks L) SC SAA = Some (c1, M1)"
    by (auto split: option.splits)
  have p1: "P M1"
    using r1 Suc.prems(2)
    by (rule blocks_rule) (use assms(3) in blast)+
  show ?case
  proof (cases c1)
    case True
    with r1 Suc.prems(1) have "inlineCallsInLoop_loop n True M1 F L SC SAA = Some (c', M')"
      by (simp add: updateDtAndLi_def)
    then show ?thesis using p1 by (rule Suc.IH)
  next
    case False
    with r1 Suc.prems(1) have "M' = M1" by simp
    moreover from r1 False have
      "inlineCallsInBlocks n M F (getBlocks L) SC SAA = Some (False, M1)" by simp
    from blocks_unchanged [OF this] have
      "M1 = M \<and> (\<forall>bi \<in> set (getBlocks L). scanBlock M SC SAA (blockAt M F bi) = None)" .
    ultimately show ?thesis using p1 by simp
  qed
qed

lemma function_rule:
  assumes "inlineCallsInFunction_loop n c M F SC SAA = Some (c', M')"
    and "P M"
    and "\<And>M BB bi. P M \<Longrightarrow> bi < length (M F)
           \<Longrightarrow> scanBlock M SC SAA (blockAt M F bi) = Some BB
           \<Longrightarrow> P (M(F := (M F)[bi := BB]))"
  shows "P M' \<and> (\<forall>bi < length (M' F). scanBlock M' SC SAA (blockAt M' F bi) = None)"
  using assms(1,2)
proof (induction n arbitrary: c M)
  case 0
  then show ?case by simp
next
  case (Suc n)
  from Suc.prems(1) obtain c1 M1 where
    r1: "inlineCallsInBlocks n M F [0 ..< length (M F)] SC SAA = Some (c1, M1)"
    by (auto split: option.splits)
  have "P M1 \<and> length (M1 F) = length (M F)"
    using r1
  proof (rule blocks_rule [where P = "\<lambda>X. P X \<and> length (X F) = length (M F)"])
    show "P M \<and> length (M F) = length (M F)" using Suc.prems(2) by simp
  next
    fix X BB bi
    assume "P X \<and> length (X F) = length (M F)" "bi \<in> set [0 ..< length (M F)]"
      "scanBlock X SC SAA (blockAt X F bi) = Some BB"
    then show "P (X(F := (X F)[bi := BB])) \<and> length ((X(F := (X F)[bi := BB])) F) = length (M F)"
      using assms(3) [of X bi BB] by simp
  qed
  then have p1: "P M1" by simp
  show ?case
  proof (cases c1)
    case True
    with r1 Suc.prems(1) have "inlineCallsInFunction_loop n True M1 F SC SAA = Some (c', M')"
      by simp
    then show ?thesis using p1 by (rule Suc.IH)
  next
    case False
    with r1 Suc.prems(1) have "M' = M1" by simp
    moreover from r1 False have
      "inlineCallsInBlocks n M F [0 ..< length (M F)] SC SAA = Some (False, M1)" by simp
    from blocks_unchanged [OF this] have
      "M1 = M \<and> (\<forall>bi \<in> set [0 ..< length (M F)]. scanBlock M SC SAA (blockAt M F bi) = None)" .
    ultimately show ?thesis using p1 by simp
  qed
qed


lemma blockAt_update:
  "blockAt (M(F := (M F)[bi := BB])) F bj =
     (if bj = bi \<and> bi < length (M F) then BB else blockAt M F bj)"
  by (simp add: blockAt_def)

lemma in_concat_blockAt:
  "I \<in> set (concat (M F)) \<longleftrightarrow> (\<exists>bi < length (M F). I \<in> set (blockAt M F bi))"
proof
  assume "I \<in> set (concat (M F))"
  then obtain B where "B \<in> set (M F)" "I \<in> set B" by auto
  then obtain bi where "bi < length (M F)" "M F ! bi = B"
    by (auto simp: in_set_conv_nth)
  with \<open>I \<in> set B\<close> show "\<exists>bi < length (M F). I \<in> set (blockAt M F bi)"
    by (auto simp: blockAt_def)
next
  assume "\<exists>bi < length (M F). I \<in> set (blockAt M F bi)"
  then obtain bi where "bi < length (M F)" "I \<in> set (M F ! bi)"
    by (auto simp: blockAt_def)
  then show "I \<in> set (concat (M F))"
    using nth_mem by auto
qed

lemma frame_refl: "frame M F bis M"
  by (simp add: frame_def)

lemma frame_step:
  "frame M F bis X \<Longrightarrow> bi \<in> bis \<Longrightarrow> frame M F bis (X(F := (X F)[bi := BB]))"
  by (auto simp: frame_def blockAt_update)

lemma loop_frame:
  assumes "inlineCallsInLoop_loop n c M F L SC SAA = Some (c', M')"
  shows "frame M F (set (getBlocks L)) M'"
proof -
  have "frame M F (set (getBlocks L)) M' \<and>
        (\<forall>bi \<in> set (getBlocks L). scanBlock M' SC SAA (blockAt M' F bi) = None)"
    using assms
    by (rule loop_rule [where P = "frame M F (set (getBlocks L))"])
       (simp_all add: frame_refl frame_step)
  then show ?thesis by simp
qed


lemma loop_fixed:
  assumes "inlineCallsInLoop_loop n c M F L SC SAA = Some (c', M')"
    and "bi \<in> set (getBlocks L)"
  shows "scanBlock M' SC SAA (blockAt M' F bi) = None"
proof -
  have "True \<and> (\<forall>bi \<in> set (getBlocks L). scanBlock M' SC SAA (blockAt M' F bi) = None)"
    using assms(1) by (rule loop_rule [where P = "\<lambda>X. True"]) simp_all
  with assms(2) show ?thesis by simp
qed

lemma function_fixed:
  assumes "inlineCallsInFunction_loop n c M F SC SAA = Some (c', M')"
    and "bi < length (M' F)"
  shows "scanBlock M' SC SAA (blockAt M' F bi) = None"
proof -
  have "True \<and> (\<forall>bi < length (M' F). scanBlock M' SC SAA (blockAt M' F bi) = None)"
    using assms(1) by (rule function_rule [where P = "\<lambda>X. True"]) simp_all
  with assms(2) show ?thesis by simp
qed

section \<open>Loop scope\<close>

text \<open>
  C9: for a kernel function with an identified work-item loop, the pass leaves every
  block outside the loop's blocks as it is, whatever that block calls; only blocks of
  the loop are rewritten. The number of blocks and the other functions stay as well.
\<close>

theorem loop_scope_frame:
  assumes "isKernelFunc SAA F" and "getSingleWorkItemLoop LI = Some L"
    and "runOnFunction n M F LI SAA = Some (c, M')"
  shows "(\<forall>bi. bi \<notin> set (getBlocks L) \<longrightarrow> blockAt M' F bi = blockAt M F bi) \<and>
         length (M' F) = length (M F) \<and> (\<forall>g. g \<noteq> F \<longrightarrow> M' g = M g)"
proof -
  have "frame M F (set (getBlocks L)) M'"
  proof (cases "M' = M")
    case True
    then show ?thesis by (simp add: frame_refl)
  next
    case False
    with assms obtain Found SC where "inlineCallsInLoop n M F L SC SAA = Some (c, M')"
      by (auto simp: runOnFunction_def inlineSplitter_def inlineSplitter_Loop_def
          split: option.splits if_splits)
    then show ?thesis unfolding inlineCallsInLoop_def by (rule loop_frame)
  qed
  then show ?thesis by (simp add: frame_def)
qed

theorem loop_scope_frame_witness:
  "isKernelFunc exSAA ''K'' \<and>
   getSingleWorkItemLoop (workItemLoop [1]) = Some \<lparr>getBlocks = [1], isWorkItemLoop = True\<rparr> \<and>
   runOnFunction 5 exModule2 ''K'' (workItemLoop [1]) exSAA =
     Some (True, exModule2(''K'' := [[Call (Some ''helper'')],
        [Other 0, Other 2, Call (Some BarrierIntrinsicName), Other 3, Other 1]])) \<and>
   blockAt (exModule2(''K'' := [[Call (Some ''helper'')],
        [Other 0, Other 2, Call (Some BarrierIntrinsicName), Other 3, Other 1]])) ''K'' 0
     = blockAt exModule2 ''K'' 0 \<and>
   blockAt exModule2 ''K'' 0 = [Call (Some ''helper'')]"
proof -
  let ?M' = "exModule2(''K'' := [[Call (Some ''helper'')],
        [Other 0, Other 2, Call (Some BarrierIntrinsicName), Other 3, Other 1]])"
  let ?L = "\<lparr>getBlocks = [1], isWorkItemLoop = True\<rparr>"
  have h1: "isKernelFunc exSAA ''K''" by (simp add: exSAA_def)
  have h2: "getSingleWorkItemLoop (workItemLoop [1]) = Some ?L" by (simp add: workItemLoop_def)
  have h3: "runOnFunction 5 exModule2 ''K'' (workItemLoop [1]) exSAA = Some (True, ?M')"
    by (simp add: eval_nat_numeral ex_defs run_defs)
  have c1: "blockAt ?M' ''K'' 0 = blockAt exModule2 ''K'' 0"
    using loop_scope_frame [OF h1 h2 h3] by simp
  have c2: "blockAt exModule2 ''K'' 0 = [Call (Some ''helper'')]"
    by (simp add: blockAt_def exModule2_def)
  show ?thesis by (intro conjI h1 h2 h3 c1 c2)
qed

section \<open>Members of the computed set\<close>




section \<open>The fixed point\<close>





section \<open>The call graph\<close>

lemma callEdges_iff [simp]: "(f, g) \<in> callEdges M \<longleftrightarrow> g \<in> callees M f"
  by (simp add: callEdges_def)

lemma nsEdges_iff [simp]:
  "(f, g) \<in> nsEdges M SAA \<longleftrightarrow> \<not> isSplitterFunc SAA f \<and> g \<in> callees M f"
  by (simp add: nsEdges_def)

lemma nsEdges_subset: "nsEdges M SAA \<subseteq> callEdges M"
  by auto

lemma ns_rtrancl_call: "(f, g) \<in> (nsEdges M SAA)\<^sup>* \<Longrightarrow> (f, g) \<in> (callEdges M)\<^sup>*"
  using rtrancl_mono [OF nsEdges_subset] by blast

lemma splitterCaller_callee:
  assumes "c \<in> callees M f" and "splitterCaller M SAA c"
  shows "splitterCaller M SAA f"
proof -
  from assms(1) have e: "(f, c) \<in> callEdges M" by simp
  from assms(2) consider "isSplitterFunc SAA c"
    | s where "isSplitterFunc SAA s" "(c, s) \<in> (callEdges M)\<^sup>+"
    by (auto simp: splitterCaller_def)
  then show ?thesis
  proof cases
    case 1
    with e show ?thesis unfolding splitterCaller_def by blast
  next
    case 2
    from e 2(2) have "(f, s) \<in> (callEdges M)\<^sup>+" by (rule trancl_into_trancl2)
    with 2(1) show ?thesis unfolding splitterCaller_def by blast
  qed
qed

lemma splitterCaller_step:
  assumes "\<not> isSplitterFunc SAA f"
  shows "splitterCaller M SAA f \<longleftrightarrow> (\<exists>c \<in> callees M f. splitterCaller M SAA c)"
proof
  assume "splitterCaller M SAA f"
  with assms obtain s where s: "isSplitterFunc SAA s" "(f, s) \<in> (callEdges M)\<^sup>+"
    by (auto simp: splitterCaller_def)
  from s(2) obtain c where c: "(f, c) \<in> callEdges M" "(c, s) \<in> (callEdges M)\<^sup>*"
    by (blast dest: tranclD)
  from c(2) s(1) have "splitterCaller M SAA c"
    unfolding splitterCaller_def by (auto simp: rtrancl_eq_or_trancl)
  with c(1) show "\<exists>c \<in> callees M f. splitterCaller M SAA c" by auto
next
  assume "\<exists>c \<in> callees M f. splitterCaller M SAA c"
  then show "splitterCaller M SAA f" using splitterCaller_callee by blast
qed

lemma ns_rtrancl_splitter:
  assumes "(f, g) \<in> (nsEdges M SAA)\<^sup>*" and "isSplitterFunc SAA f"
  shows "g = f"
  using assms by (auto elim: converse_rtranclE)

lemma ns_rtrancl_unfold:
  assumes "\<not> isSplitterFunc SAA f"
  shows "(f, g) \<in> (nsEdges M SAA)\<^sup>* \<longleftrightarrow>
           g = f \<or> (\<exists>c \<in> callees M f. (c, g) \<in> (nsEdges M SAA)\<^sup>*)"
proof
  assume "(f, g) \<in> (nsEdges M SAA)\<^sup>*"
  then show "g = f \<or> (\<exists>c \<in> callees M f. (c, g) \<in> (nsEdges M SAA)\<^sup>*)"
    by (auto elim: converse_rtranclE)
next
  assume "g = f \<or> (\<exists>c \<in> callees M f. (c, g) \<in> (nsEdges M SAA)\<^sup>*)"
  then show "(f, g) \<in> (nsEdges M SAA)\<^sup>*"
  proof
    assume "g = f"
    then show ?thesis by simp
  next
    assume "\<exists>c \<in> callees M f. (c, g) \<in> (nsEdges M SAA)\<^sup>*"
    then obtain c where "c \<in> callees M f" "(c, g) \<in> (nsEdges M SAA)\<^sup>*" by blast
    with assms show ?thesis by (auto intro: converse_rtrancl_into_rtrancl)
  qed
qed

lemma splitterSet_splitter:
  "isSplitterFunc SAA f \<Longrightarrow> splitterSet_Function M SAA f = {f}"
  by (auto simp: splitterSet_Function_def splitterCaller_def dest: ns_rtrancl_splitter)

lemma splitterSet_unfold:
  assumes "\<not> isSplitterFunc SAA f"
  shows "splitterSet_Function M SAA f =
           (if splitterCaller M SAA f then {f} else {}) \<union>
           (\<Union>c \<in> callees M f. splitterSet_Function M SAA c)"
  unfolding splitterSet_Function_def ns_rtrancl_unfold [OF assms] by auto

lemma splitterSet_Blocks_eq:
  "splitterSet_Blocks M SAA Blocks =
     (\<Union>c \<in> set (calledFunctions (concat Blocks)). splitterSet_Function M SAA c)"
  by (auto simp: splitterSet_Blocks_def splitterSet_Function_def)

lemma splitterClosed_empty: "splitterClosed M SAA {}"
  by (simp add: splitterClosed_def)

lemma splitterClosed_rtrancl:
  assumes "(g, h) \<in> (nsEdges M SAA)\<^sup>*" and "splitterClosed M SAA S" and "g \<in> S"
    and "splitterCaller M SAA h"
  shows "h \<in> S"
  using assms
proof (induction rule: converse_rtrancl_induct)
  case base
  then show ?case by simp
next
  case (step y z)
  from step.prems(3) step.hyps(2) have "splitterCaller M SAA z"
    unfolding splitterCaller_def
    by (metis ns_rtrancl_call rtrancl_eq_or_trancl rtrancl_trancl_trancl)
  with step.hyps(1) step.prems(1,2) have "z \<in> S"
    unfolding splitterClosed_def by blast
  with step show ?case by blast
qed

lemma splitterClosed_subset:
  "splitterClosed M SAA S \<Longrightarrow> f \<in> S \<Longrightarrow> splitterSet_Function M SAA f \<subseteq> S"
  unfolding splitterSet_Function_def using splitterClosed_rtrancl by blast

lemma splitterClosed_union:
  assumes "splitterClosed M SAA S"
  shows "splitterClosed M SAA (S \<union> splitterSet_Function M SAA f)"
  unfolding splitterClosed_def
proof (intro ballI conjI allI impI)
  fix g assume "g \<in> S \<union> splitterSet_Function M SAA f"
  with assms show "splitterCaller M SAA g"
    by (auto simp: splitterClosed_def splitterSet_Function_def)
next
  fix g h
  assume g: "g \<in> S \<union> splitterSet_Function M SAA f"
    and e: "(g, h) \<in> nsEdges M SAA" and h: "splitterCaller M SAA h"
  from g show "h \<in> S \<union> splitterSet_Function M SAA f"
  proof
    assume "g \<in> S"
    with assms e h show ?thesis unfolding splitterClosed_def by blast
  next
    assume "g \<in> splitterSet_Function M SAA f"
    then have "(f, g) \<in> (nsEdges M SAA)\<^sup>*" by (simp add: splitterSet_Function_def)
    from this e have "(f, h) \<in> (nsEdges M SAA)\<^sup>*" by (rule rtrancl_into_rtrancl)
    with h show ?thesis by (simp add: splitterSet_Function_def)
  qed
qed

section \<open>What the traversal computes\<close>

lemma fill_Instrs_exact:
  assumes rec: "\<And>t S b S'. rec t S = Some (b, S') \<Longrightarrow> splitterClosed M SAA S \<Longrightarrow>
            S' = S \<union> splitterSet_Function M SAA t \<and> b = splitterCaller M SAA t"
  shows "fillTransitiveSplitterCallers_Instrs rec Is S = Some (b, S') \<Longrightarrow>
         splitterClosed M SAA S \<Longrightarrow>
         S' = S \<union> (\<Union>c \<in> set (calledFunctions Is). splitterSet_Function M SAA c) \<and>
         b = (\<exists>c \<in> set (calledFunctions Is). splitterCaller M SAA c)"
proof (induction Is arbitrary: S b S')
  case Nil
  then show ?case by simp
next
  case (Cons I Is)
  show ?case
  proof (cases "\<exists>t. I = Call (Some t)")
    case False
    then have "fillTransitiveSplitterCallers_Instrs rec (I # Is) S =
               fillTransitiveSplitterCallers_Instrs rec Is S"
      and "calledFunctions (I # Is) = calledFunctions Is"
      by (cases I; cases "case I of Call x \<Rightarrow> x | _ \<Rightarrow> None"; simp)+
    with Cons show ?thesis by simp
  next
    case True
    then obtain t where I: "I = Call (Some t)" by blast
    from Cons.prems(1) I obtain b1 S1 where r1: "rec t S = Some (b1, S1)"
      by (cases "rec t S") auto
    with Cons.prems(1) I obtain b2 where
      r2: "fillTransitiveSplitterCallers_Instrs rec Is S1 = Some (b2, S')" and b: "b = (b1 \<or> b2)"
      by (cases "fillTransitiveSplitterCallers_Instrs rec Is S1") auto
    from rec [OF r1 Cons.prems(2)] have
      s1: "S1 = S \<union> splitterSet_Function M SAA t" and b1: "b1 = splitterCaller M SAA t"
      by simp_all
    have "splitterClosed M SAA S1"
      unfolding s1 using Cons.prems(2) by (rule splitterClosed_union)
    from Cons.IH [OF r2 this] s1 b1 b I show ?thesis by auto
  qed
qed

lemma fill_exact:
  "fillTransitiveSplitterCallers n M SAA f S = Some (b, S') \<Longrightarrow> splitterClosed M SAA S \<Longrightarrow>
     S' = S \<union> splitterSet_Function M SAA f \<and> b = splitterCaller M SAA f"
proof (induction n arbitrary: f S b S')
  case 0
  then show ?case by simp
next
  case (Suc n)
  show ?case
  proof (cases "isSplitterFunc SAA f")
    case True
    with Suc.prems(1) show ?thesis
      by (auto simp: splitterSet_splitter splitterCaller_def)
  next
    case ns: False
    show ?thesis
    proof (cases "f \<in> S")
      case True
      with ns Suc.prems show ?thesis
        using splitterClosed_subset [of M SAA S f]
        by (auto simp: splitterClosed_def)
    next
      case False
      with ns Suc.prems(1) obtain Found S1 where
        r: "fillTransitiveSplitterCallers_Instrs (fillTransitiveSplitterCallers n M SAA)
              (concat (M f)) S = Some (Found, S1)"
        and s: "S' = (if Found then insert f S1 else S1)" and b: "b = Found"
        by (auto simp: fillTransitiveSplitterCallers_Blocks_def split: option.splits if_splits)
      have "S1 = S \<union> (\<Union>c \<in> set (calledFunctions (concat (M f))). splitterSet_Function M SAA c) \<and>
            Found = (\<exists>c \<in> set (calledFunctions (concat (M f))). splitterCaller M SAA c)"
        using r Suc.prems(2)
        by (rule fill_Instrs_exact [rotated]) (use Suc.IH in blast)
      then have s1: "S1 = S \<union> (\<Union>c \<in> callees M f. splitterSet_Function M SAA c)"
        and f: "Found = splitterCaller M SAA f"
        using splitterCaller_step [OF ns, of M] by (simp_all add: callees_def)
      show ?thesis
        unfolding splitterSet_unfold [OF ns] s s1 b f by auto
    qed
  qed
qed

section \<open>Call depth\<close>

lemma fill_Instrs_terminates:
  assumes "\<And>t S. Call (Some t) \<in> set Is \<Longrightarrow> rec t S \<noteq> None"
  shows "fillTransitiveSplitterCallers_Instrs rec Is S \<noteq> None"
  using assms
proof (induction Is arbitrary: S)
  case Nil
  then show ?case by simp
next
  case (Cons I Is)
  show ?case
  proof (cases "\<exists>t. I = Call (Some t)")
    case False
    then have "fillTransitiveSplitterCallers_Instrs rec (I # Is) S =
               fillTransitiveSplitterCallers_Instrs rec Is S"
      by (cases I; cases "case I of Call x \<Rightarrow> x | _ \<Rightarrow> None"; simp)
    with Cons show ?thesis by simp
  next
    case True
    then obtain t where I: "I = Call (Some t)" by blast
    with Cons.prems [of t S] obtain b1 S1 where r1: "rec t S = Some (b1, S1)"
      by (cases "rec t S") auto
    from Cons.prems have "fillTransitiveSplitterCallers_Instrs rec Is S1 \<noteq> None"
      by (intro Cons.IH) auto
    with r1 I show ?thesis by (auto split: option.splits)
  qed
qed

lemma fill_terminates:
  assumes rank: "\<And>f g. g \<in> callees M f \<Longrightarrow> rank g < (rank f :: nat)"
  shows "rank f < n \<Longrightarrow> fillTransitiveSplitterCallers n M SAA f S \<noteq> None"
proof (induction n arbitrary: f S)
  case 0
  then show ?case by simp
next
  case (Suc n)
  have "fillTransitiveSplitterCallers_Instrs (fillTransitiveSplitterCallers n M SAA)
          (concat (M f)) S \<noteq> None"
  proof (rule fill_Instrs_terminates)
    fix t S assume "Call (Some t) \<in> set (concat (M f))"
    then have "t \<in> callees M f" by (simp add: callees_def)
    then have "rank t < rank f" by (rule rank)
    with Suc.prems have "rank t < n" by simp
    then show "fillTransitiveSplitterCallers n M SAA t S \<noteq> None" by (rule Suc.IH)
  qed
  then show ?case
    by (auto simp: fillTransitiveSplitterCallers_Blocks_def split: option.splits)
qed

lemma rank_exists:
  assumes "finite E" and "acyclic E"
  shows "\<exists>rank :: 'a \<Rightarrow> nat. (\<forall>f g. (f, g) \<in> E \<longrightarrow> rank g < rank f) \<and> (\<forall>f. rank f \<le> card E)"
proof (intro exI conjI allI impI)
  let ?rank = "\<lambda>f. card (E\<^sup>+ `` {f})"
  have fin: "finite (E\<^sup>+ `` {f})" for f
  proof (rule finite_subset)
    show "E\<^sup>+ `` {f} \<subseteq> Range E" using trancl_range [of E] by blast
    show "finite (Range E)" using assms(1) by (rule finite_Range)
  qed
  fix f g assume e: "(f, g) \<in> E"
  have "E\<^sup>+ `` {g} \<subset> E\<^sup>+ `` {f}"
  proof
    show "E\<^sup>+ `` {g} \<subseteq> E\<^sup>+ `` {f}" using e by (auto intro: trancl_into_trancl2)
    have "g \<in> E\<^sup>+ `` {f}" using e by auto
    moreover have "g \<notin> E\<^sup>+ `` {g}" using assms(2) by (auto simp: acyclic_def)
    ultimately show "E\<^sup>+ `` {g} \<noteq> E\<^sup>+ `` {f}" by blast
  qed
  then show "?rank g < ?rank f" using fin by (simp add: psubset_card_mono)
next
  fix f
  have "E\<^sup>+ `` {f} \<subseteq> Range E" using trancl_range [of E] by blast
  then have "card (E\<^sup>+ `` {f}) \<le> card (Range E)"
    using assms(1) by (intro card_mono finite_Range)
  also have "\<dots> \<le> card E"
    unfolding Range_snd using assms(1) by (rule card_image_le)
  finally show "card (E\<^sup>+ `` {f}) \<le> card E" .
qed

lemma fill_total:
  assumes "finite (callEdges M)" and "acyclic (callEdges M)" and "card (callEdges M) < n"
  shows "fillTransitiveSplitterCallers n M SAA f S \<noteq> None"
proof -
  from rank_exists [OF assms(1,2)] obtain rank :: "fname \<Rightarrow> nat" where
    r: "\<And>f g. g \<in> callees M f \<Longrightarrow> rank g < rank f" and b: "\<And>f. rank f \<le> card (callEdges M)"
    by auto
  from b [of f] assms(3) have "rank f < n" by simp
  with r show ?thesis by (rule fill_terminates)
qed


section \<open>The computed set\<close>

lemma acyclic_no_edges: "acyclic {}"
  by (simp add: acyclic_def)

lemma callEdges_exModule_nested:
  "callEdges exModule_nested = {(''K'', ''sync_outer''), (''sync_outer'', ''sync_inner'')}"
  by (auto simp: callEdges_def callees_def exModule_nested_def split: if_splits)

lemma callEdges_exModule:
  "callEdges exModule = {(''K'', ''helper''), (''helper'', ''barrier_user_named_sync'')}"
  by (auto simp: callEdges_def callees_def exModule_def split: if_splits)

text \<open>
  C2 as stated fails where a function annotated as a splitter has a body with calls: the
  traversal adds the splitter and does not look into its body. In the module
  \<open>exModule_nested\<close>, which is finite and not recursive, \<open>sync_inner\<close> is reachable from
  the kernel through direct calls and is annotated as a splitter, and it is not in the
  computed set.
\<close>

theorem splitter_set_counterexample:
  "finite (callEdges exModule_nested) \<and> acyclic (callEdges exModule_nested) \<and>
   card (callEdges exModule_nested) < 5 \<and>
   fillTransitiveSplitterCallers 5 exModule_nested exSAA_nested ''K'' {}
     = Some (True, {''K'', ''sync_outer''}) \<and>
   ''sync_inner'' \<in> specSplitterSet_Function exModule_nested exSAA_nested ''K'' \<and>
   ''sync_inner'' \<notin> {''K'', ''sync_outer''}"
proof (intro conjI)
  show "finite (callEdges exModule_nested)" by (simp add: callEdges_exModule_nested)
  show "acyclic (callEdges exModule_nested)"
    by (simp add: callEdges_exModule_nested rtrancl_insert acyclic_no_edges)
  show "card (callEdges exModule_nested) < 5" by (simp add: callEdges_exModule_nested)
  show "fillTransitiveSplitterCallers 5 exModule_nested exSAA_nested ''K'' {}
     = Some (True, {''K'', ''sync_outer''})"
    by (simp add: eval_nat_numeral ex_defs run_defs insert_commute)
  have e1: "(''K'', ''sync_outer'') \<in> callEdges exModule_nested"
    and e2: "(''sync_outer'', ''sync_inner'') \<in> callEdges exModule_nested"
    unfolding callEdges_exModule_nested by simp_all
  from r_into_rtrancl [OF e1] r_into_rtrancl [OF e2]
  have "(''K'', ''sync_inner'') \<in> (callEdges exModule_nested)\<^sup>*" by (rule rtrancl_trans)
  moreover have "isSplitterFunc exSAA_nested ''sync_inner''" by (simp add: exSAA_nested_def)
  ultimately show "''sync_inner'' \<in> specSplitterSet_Function exModule_nested exSAA_nested ''K''"
    by (simp add: specSplitterSet_Function_def splitterCaller_def)
  show "''sync_inner'' \<notin> {''K'', ''sync_outer''}" by simp
qed

lemma nsEdges_leaf_splitters:
  assumes "\<forall>s. isSplitterFunc SAA s \<longrightarrow> callees M s = {}"
  shows "nsEdges M SAA = callEdges M"
  using assms by (auto simp: nsEdges_def callEdges_def)

lemma fill_Function_result:
  assumes "finite (callEdges M)" and "acyclic (callEdges M)" and "card (callEdges M) < n"
  shows "fillTransitiveSplitterCallers n M SAA F {} =
           Some (splitterCaller M SAA F, splitterSet_Function M SAA F)"
proof -
  from fill_total [OF assms, of SAA F "{}"] obtain b S where
    r: "fillTransitiveSplitterCallers n M SAA F {} = Some (b, S)"
    by (cases "fillTransitiveSplitterCallers n M SAA F {}") auto
  from fill_exact [OF r splitterClosed_empty] r show ?thesis by simp
qed

lemma fill_Loop_result:
  assumes "finite (callEdges M)" and "acyclic (callEdges M)" and "card (callEdges M) < n"
  shows "fillTransitiveSplitterCallers_Loop n M SAA F L {} =
           Some (\<exists>c \<in> set (calledFunctions (concat (map (blockAt M F) (getBlocks L)))).
                   splitterCaller M SAA c,
                 splitterSet_Blocks M SAA (map (blockAt M F) (getBlocks L)))"
proof -
  let ?Is = "concat (map (blockAt M F) (getBlocks L))"
  have "fillTransitiveSplitterCallers_Instrs (fillTransitiveSplitterCallers n M SAA) ?Is {} \<noteq> None"
    by (rule fill_Instrs_terminates) (rule fill_total [OF assms])
  then obtain b S where
    r: "fillTransitiveSplitterCallers_Instrs (fillTransitiveSplitterCallers n M SAA) ?Is {} = Some (b, S)"
    by auto
  have "S = {} \<union> (\<Union>c \<in> set (calledFunctions ?Is). splitterSet_Function M SAA c) \<and>
        b = (\<exists>c \<in> set (calledFunctions ?Is). splitterCaller M SAA c)"
    using r splitterClosed_empty
    by (rule fill_Instrs_exact [rotated]) (use fill_exact in blast)
  with r show ?thesis
    by (simp add: fillTransitiveSplitterCallers_Loop_def fillTransitiveSplitterCallers_Blocks_def
        splitterSet_Blocks_eq)
qed

text \<open>
  C2, amended: in a finite module with a non-recursive call graph, and with call depth
  beyond the number of call edges, the traversal of a scope (a function, or the blocks
  of a loop) returns exactly the set of splitter callers (functions annotated as a
  splitter or transitively calling one) that are reachable from the scope through
  resolved direct calls along paths that do not continue through a function annotated
  as a splitter; and it reports whether the scope itself reaches a splitter. Every
  intermediate caller on such a path is in the set. When no function annotated as a
  splitter calls anything, this is the set of all reachable splitter callers.
\<close>

theorem splitter_set:
  assumes "finite (callEdges M)" and "acyclic (callEdges M)" and "card (callEdges M) < n"
  shows "fillTransitiveSplitterCallers n M SAA F {} =
           Some (splitterCaller M SAA F, splitterSet_Function M SAA F) \<and>
         fillTransitiveSplitterCallers_Loop n M SAA F L {} =
           Some (\<exists>c \<in> set (calledFunctions (concat (map (blockAt M F) (getBlocks L)))).
                   splitterCaller M SAA c,
                 splitterSet_Blocks M SAA (map (blockAt M F) (getBlocks L))) \<and>
         ((\<forall>s. isSplitterFunc SAA s \<longrightarrow> callees M s = {}) \<longrightarrow>
            splitterSet_Function M SAA F = specSplitterSet_Function M SAA F \<and>
            splitterSet_Blocks M SAA (map (blockAt M F) (getBlocks L)) =
              specSplitterSet_Blocks M SAA (map (blockAt M F) (getBlocks L)))"
proof (intro conjI impI)
  show "fillTransitiveSplitterCallers n M SAA F {} =
           Some (splitterCaller M SAA F, splitterSet_Function M SAA F)"
    using assms by (rule fill_Function_result)
next
  show "fillTransitiveSplitterCallers_Loop n M SAA F L {} =
           Some (\<exists>c \<in> set (calledFunctions (concat (map (blockAt M F) (getBlocks L)))).
                   splitterCaller M SAA c,
                 splitterSet_Blocks M SAA (map (blockAt M F) (getBlocks L)))"
    using assms by (rule fill_Loop_result)
next
  assume "\<forall>s. isSplitterFunc SAA s \<longrightarrow> callees M s = {}"
  then have "nsEdges M SAA = callEdges M" by (rule nsEdges_leaf_splitters)
  then show "splitterSet_Function M SAA F = specSplitterSet_Function M SAA F"
    and "splitterSet_Blocks M SAA (map (blockAt M F) (getBlocks L)) =
              specSplitterSet_Blocks M SAA (map (blockAt M F) (getBlocks L))"
    by (simp_all add: splitterSet_Function_def specSplitterSet_Function_def
        splitterSet_Blocks_def specSplitterSet_Blocks_def)
qed

theorem splitter_set_witness:
  "finite (callEdges exModule_nested) \<and> acyclic (callEdges exModule_nested) \<and>
   card (callEdges exModule_nested) < 5 \<and>
   fillTransitiveSplitterCallers 5 exModule_nested exSAA_nested ''K'' {}
     = Some (True, {''K'', ''sync_outer''}) \<and>
   splitterCaller exModule_nested exSAA_nested ''K'' \<and>
   splitterSet_Function exModule_nested exSAA_nested ''K'' = {''K'', ''sync_outer''}"
proof -
  have h1: "finite (callEdges exModule_nested)" by (simp add: callEdges_exModule_nested)
  have h2: "acyclic (callEdges exModule_nested)"
    by (simp add: callEdges_exModule_nested rtrancl_insert acyclic_no_edges)
  have h3: "card (callEdges exModule_nested) < 5" by (simp add: callEdges_exModule_nested)
  have e: "fillTransitiveSplitterCallers 5 exModule_nested exSAA_nested ''K'' {}
     = Some (True, {''K'', ''sync_outer''})"
    by (simp add: eval_nat_numeral ex_defs run_defs insert_commute)
  from splitter_set [OF h1 h2 h3, of exSAA_nested "''K''" "\<lparr>getBlocks = [], isWorkItemLoop = True\<rparr>"]
  have "fillTransitiveSplitterCallers 5 exModule_nested exSAA_nested ''K'' {} =
          Some (splitterCaller exModule_nested exSAA_nested ''K'',
                splitterSet_Function exModule_nested exSAA_nested ''K'')"
    by (rule conjunct1)
  with e have c: "splitterCaller exModule_nested exSAA_nested ''K''"
    "splitterSet_Function exModule_nested exSAA_nested ''K'' = {''K'', ''sync_outer''}"
    by simp_all
  show ?thesis by (intro conjI h1 h2 h3 e c)
qed

section \<open>Runs that change nothing\<close>

lemma bb_noop:
  "scanBlock M SC SAA (blockAt M F bi) = None \<Longrightarrow>
   inlineCallsInBasicBlock (Suc k) M F bi SC SAA = Some (False, M)"
  by (simp add: inlineCallsInBasicBlock_def)

lemma blocks_noop:
  "\<forall>bi \<in> set bis. scanBlock M SC SAA (blockAt M F bi) = None \<Longrightarrow>
   inlineCallsInBlocks (Suc k) M F bis SC SAA = Some (False, M)"
  by (induction bis) (simp_all add: bb_noop del: inlineCallsInBasicBlock_loop.simps)

lemma loop_noop:
  "\<forall>bi \<in> set (getBlocks L). scanBlock M SC SAA (blockAt M F bi) = None \<Longrightarrow>
   inlineCallsInLoop (Suc (Suc k)) M F L SC SAA = Some (False, M)"
  by (simp add: inlineCallsInLoop_def blocks_noop del: inlineCallsInBlocks.simps)

lemma function_noop:
  "\<forall>bi < length (M F). scanBlock M SC SAA (blockAt M F bi) = None \<Longrightarrow>
   inlineCallsInFunction (Suc (Suc k)) M F SC SAA = Some (False, M)"
  by (simp add: inlineCallsInFunction_def blocks_noop del: inlineCallsInBlocks.simps)

lemma blockAt_callees:
  "Call (Some t) \<in> set (blockAt M F bi) \<Longrightarrow> t \<in> callees M F"
  by (auto simp: blockAt_def callees_def split: if_splits)

lemma loop_blocks_callees:
  "t \<in> set (calledFunctions (concat (map (blockAt M F) bis))) \<Longrightarrow> t \<in> callees M F"
  by (auto dest: blockAt_callees)

text \<open>
  C7: for a kernel function of a finite module with a non-recursive call graph from which
  no function annotated as a splitter is reachable through direct calls, the pass, given
  call depth beyond the number of call edges, reports "no change" and leaves the module
  as it is, whatever the loop classifier answers.
\<close>

theorem no_splitter_no_change:
  assumes kernel: "isKernelFunc SAA F"
    and fin: "finite (callEdges M)" and acyc: "acyclic (callEdges M)"
    and none: "\<forall>s. isSplitterFunc SAA s \<longrightarrow> (F, s) \<notin> (callEdges M)\<^sup>+"
    and fuel: "card (callEdges M) + 1 < n"
  shows "runOnFunction n M F LI SAA = Some (False, M) \<and>
         run n M F LI (Some SAA) = Some (PreservedAll, M)"
proof -
  from fuel have fuel': "card (callEdges M) < n" by simp
  from fuel obtain k where n: "n = Suc (Suc k)" by (cases n; cases "n - 1") auto
  have callee: "\<not> splitterCaller M SAA t" if "t \<in> callees M F" for t
  proof
    assume "splitterCaller M SAA t"
    then consider "isSplitterFunc SAA t"
      | s where "isSplitterFunc SAA s" "(t, s) \<in> (callEdges M)\<^sup>+"
      by (auto simp: splitterCaller_def)
    then show False
    proof cases
      case 1
      moreover from that have "(F, t) \<in> (callEdges M)\<^sup>+" by auto
      ultimately show ?thesis using none by blast
    next
      case 2
      from that have "(F, t) \<in> callEdges M" by simp
      from this 2(2) have "(F, s) \<in> (callEdges M)\<^sup>+" by (rule trancl_into_trancl2)
      with 2(1) none show ?thesis by blast
    qed
  qed
  have "inlineSplitter n M F LI SAA = Some (False, M)"
  proof (cases "getSingleWorkItemLoop LI")
    case (Some L)
    let ?Bs = "map (blockAt M F) (getBlocks L)"
    from fill_Loop_result [OF fin acyc fuel', of SAA F L]
    have "fillTransitiveSplitterCallers_Loop n M SAA F L {} =
            Some (\<exists>c \<in> set (calledFunctions (concat ?Bs)). splitterCaller M SAA c,
                  splitterSet_Blocks M SAA ?Bs)" .
    moreover have "\<not> (\<exists>c \<in> set (calledFunctions (concat ?Bs)). splitterCaller M SAA c)"
      using callee loop_blocks_callees by blast
    ultimately show ?thesis
      using Some by (simp add: inlineSplitter_def inlineSplitter_Loop_def)
  next
    case None
    from fill_Function_result [OF fin acyc fuel', of SAA F]
    have r: "fillTransitiveSplitterCallers n M SAA F {} =
            Some (splitterCaller M SAA F, splitterSet_Function M SAA F)" .
    show ?thesis
    proof (cases "splitterCaller M SAA F")
      case False
      with r None show ?thesis by (simp add: inlineSplitter_def)
    next
      case True
      have "\<forall>bi < length (M F). scanBlock M (splitterSet_Function M SAA F) SAA (blockAt M F bi) = None"
      proof (intro allI impI)
        fix bi
        have "\<not> isSplitterFunc SAA t \<and> t \<notin> splitterSet_Function M SAA F"
          if "Call (Some t) \<in> set (blockAt M F bi)" for t
        proof -
          from that have "t \<in> callees M F" by (rule blockAt_callees)
          then have "\<not> splitterCaller M SAA t" by (rule callee)
          then show ?thesis by (auto simp: splitterCaller_def splitterSet_Function_def)
        qed
        then show "scanBlock M (splitterSet_Function M SAA F) SAA (blockAt M F bi) = None"
          unfolding scanBlock_None_iff by blast
      qed
      then have "inlineCallsInFunction n M F (splitterSet_Function M SAA F) SAA = Some (False, M)"
        unfolding n by (rule function_noop)
      with r None True show ?thesis by (simp add: inlineSplitter_def)
    qed
  qed
  with kernel show ?thesis by (simp add: runOnFunction_def run_def)
qed


lemma callEdges_exModule_plain:
  "callEdges exModule_plain =
     {(''K'', ''plain''), (''plain'', ''leaf''), (''other'', ''barrier_user_named_sync'')}"
  by (auto simp: callEdges_def callees_def exModule_plain_def split: if_splits)

theorem no_splitter_no_change_witness:
  "isKernelFunc exSAA ''K'' \<and>
   finite (callEdges exModule_plain) \<and> acyclic (callEdges exModule_plain) \<and>
   isSplitterFunc exSAA ''barrier_user_named_sync'' \<and>
   (''K'', ''barrier_user_named_sync'') \<notin> (callEdges exModule_plain)\<^sup>+ \<and>
   card (callEdges exModule_plain) + 1 < 5 \<and>
   runOnFunction 5 exModule_plain ''K'' noLoop exSAA = Some (False, exModule_plain) \<and>
   runOnFunction 5 exModule_plain ''K'' (workItemLoop [0]) exSAA = Some (False, exModule_plain) \<and>
   run 5 exModule_plain ''K'' noLoop (Some exSAA) = Some (PreservedAll, exModule_plain)"
proof -
  have h1: "isKernelFunc exSAA ''K''" by (simp add: exSAA_def)
  have h2: "finite (callEdges exModule_plain)" by (simp add: callEdges_exModule_plain)
  have h3: "acyclic (callEdges exModule_plain)"
    by (simp add: callEdges_exModule_plain rtrancl_insert acyclic_no_edges)
  have s: "isSplitterFunc exSAA ''barrier_user_named_sync''" by (simp add: exSAA_def)
  have p: "(''K'', ''barrier_user_named_sync'') \<notin> (callEdges exModule_plain)\<^sup>+"
    by (simp add: callEdges_exModule_plain trancl_insert rtrancl_insert)
  have h4: "\<forall>s. isSplitterFunc exSAA s \<longrightarrow> (''K'', s) \<notin> (callEdges exModule_plain)\<^sup>+"
    using p by (simp add: exSAA_def)
  have h5: "card (callEdges exModule_plain) + 1 < 5" by (simp add: callEdges_exModule_plain)
  note th = no_splitter_no_change [OF h1 h2 h3 h4 h5]
  show ?thesis
    by (intro conjI h1 h2 h3 s p h5 th [THEN conjunct1] th [THEN conjunct2])
qed

section \<open>A second run\<close>

lemma scanBlock_calls:
  "scanBlock X SC SAA BB0 = Some BB \<Longrightarrow> Call (Some t) \<in> set BB \<Longrightarrow>
     Call (Some t) \<in> set BB0 \<or> t = BarrierIntrinsicName \<or>
     (\<exists>u. Call (Some u) \<in> set BB0 \<and> \<not> isSplitterFunc SAA u \<and> u \<noteq> BarrierIntrinsicName \<and>
          t \<in> callees X u)"
proof (induction X SC SAA BB0 arbitrary: BB rule: scanBlock.induct)
  case (1 M SC SAA)
  then show ?case by simp
next
  case (2 M SC SAA u rest)
  show ?case
  proof (cases "u \<in> SC \<and> \<not> isSplitterFunc SAA u")
    case inl: True
    show ?thesis
    proof (cases "checkedInlineFunction M u")
      case None
      with inl "2.prems"(1) obtain BB1 where
        "scanBlock M SC SAA rest = Some BB1" "BB = Call (Some u) # BB1"
        by auto
      with "2.IH"(1) [OF inl None, of BB1] "2.prems"(2) show ?thesis by auto
    next
      case (Some body)
      with inl "2.prems"(1) have BB: "BB = body @ rest" by simp
      from Some have body: "body = concat (M u)" "u \<noteq> BarrierIntrinsicName"
        by (auto simp: checkedInlineFunction_def split: if_splits)
      from "2.prems"(2) BB consider "Call (Some t) \<in> set body" | "Call (Some t) \<in> set rest"
        by auto
      then show ?thesis
      proof cases
        case 1
        with body have "t \<in> callees M u" by (simp add: callees_def)
        with inl body show ?thesis by auto
      next
        case 2
        then show ?thesis by simp
      qed
    qed
  next
    case ninl: False
    show ?thesis
    proof (cases "isSplitterFunc SAA u \<and> u \<noteq> BarrierIntrinsicName")
      case True
      with ninl "2.prems" show ?thesis by (auto simp: createBarrier_def)
    next
      case False
      with ninl "2.prems"(1) obtain BB1 where
        "scanBlock M SC SAA rest = Some BB1" "BB = Call (Some u) # BB1"
        by auto
      with "2.IH"(2) [OF ninl False, of BB1] "2.prems"(2) show ?thesis by auto
    qed
  qed
qed auto

lemma reachableCalls_trancl:
  assumes "t \<in> reachableCalls M SAA F bis"
  shows "(F, t) \<in> (callEdges M)\<^sup>+"
proof -
  from assms obtain bi c where
    c: "Call (Some c) \<in> set (blockAt M F bi)" and p: "(c, t) \<in> (nsEdges M SAA)\<^sup>*"
    by (auto simp: reachableCalls_def)
  from c have "(F, c) \<in> callEdges M" by (simp add: blockAt_callees)
  moreover from p have "(c, t) \<in> (callEdges M)\<^sup>*" by (rule ns_rtrancl_call)
  ultimately show ?thesis by (rule rtrancl_into_trancl2)
qed

lemma reachableCalls_step:
  assumes "u \<in> reachableCalls M SAA F bis" and "\<not> isSplitterFunc SAA u" and "t \<in> callees M u"
  shows "t \<in> reachableCalls M SAA F bis"
proof -
  from assms(1) obtain bi c where
    c: "bi \<in> bis" "Call (Some c) \<in> set (blockAt M F bi)" and p: "(c, u) \<in> (nsEdges M SAA)\<^sup>*"
    by (auto simp: reachableCalls_def)
  from assms(2,3) have "(u, t) \<in> nsEdges M SAA" by simp
  with p have "(c, t) \<in> (nsEdges M SAA)\<^sup>*" by (rule rtrancl_into_rtrancl)
  with c show ?thesis unfolding reachableCalls_def by blast
qed

lemma inlinerInv_refl: "inlinerInv M SAA F bis M"
  by (auto simp: inlinerInv_def frame_refl reachableCalls_def)

lemma inlinerInv_step:
  assumes acyc: "acyclic (callEdges M)"
    and inv: "inlinerInv M SAA F bis X" and bi: "bi \<in> bis"
    and scan: "scanBlock X SC SAA (blockAt X F bi) = Some BB"
  shows "inlinerInv M SAA F bis (X(F := (X F)[bi := BB]))"
  unfolding inlinerInv_def
proof (intro conjI ballI allI impI)
  from inv bi show "frame M F bis (X(F := (X F)[bi := BB]))"
    unfolding inlinerInv_def by (blast intro: frame_step)
next
  fix bj t
  assume bj: "bj \<in> bis"
    and call: "Call (Some t) \<in> set (blockAt (X(F := (X F)[bi := BB])) F bj)"
  let ?R = "reachableCalls M SAA F bis"
  from inv have old: "t = BarrierIntrinsicName \<or> t \<in> ?R"
    if "b \<in> bis" "Call (Some t) \<in> set (blockAt X F b)" for b t
    using that unfolding inlinerInv_def by blast
  from inv have fr: "\<And>g. g \<noteq> F \<Longrightarrow> X g = M g"
    unfolding inlinerInv_def frame_def by blast
  show "t = BarrierIntrinsicName \<or> t \<in> ?R"
  proof (cases "bj = bi \<and> bi < length (X F)")
    case False
    with call have "Call (Some t) \<in> set (blockAt X F bj)" by (simp add: blockAt_update)
    with bj show ?thesis by (rule old)
  next
    case True
    with call have "Call (Some t) \<in> set BB" by (simp add: blockAt_update)
    from scanBlock_calls [OF scan this] consider
      "Call (Some t) \<in> set (blockAt X F bi)" | "t = BarrierIntrinsicName"
      | u where "Call (Some u) \<in> set (blockAt X F bi)" "\<not> isSplitterFunc SAA u"
          "u \<noteq> BarrierIntrinsicName" "t \<in> callees X u"
      by blast
    then show ?thesis
    proof cases
      case 1
      with bi show ?thesis by (rule old)
    next
      case 2
      then show ?thesis by simp
    next
      case 3
      from old [OF bi 3(1)] 3(3) have u: "u \<in> ?R" by simp
      then have "(F, u) \<in> (callEdges M)\<^sup>+" by (rule reachableCalls_trancl)
      with acyc have "u \<noteq> F" by (auto simp: acyclic_def)
      with fr 3(4) have "t \<in> callees M u" by (simp add: callees_def)
      with u 3(2) have "t \<in> ?R" by (rule reachableCalls_step)
      then show ?thesis by simp
    qed
  qed
qed

lemma trancl_off_F:
  assumes agree: "\<And>g. g \<noteq> F \<Longrightarrow> M' g = M g"
    and noF: "(t, F) \<notin> (callEdges M)\<^sup>*"
    and path: "(t, s) \<in> (callEdges M')\<^sup>+"
  shows "(t, s) \<in> (callEdges M)\<^sup>+"
  using path
proof (induction rule: trancl_induct)
  case (base y)
  from noF have "t \<noteq> F" by auto
  with agree have "callees M' t = callees M t" by (simp add: callees_def)
  with base have "(t, y) \<in> callEdges M" by simp
  then show ?case by (rule r_into_trancl)
next
  case (step y z)
  from step.IH noF have "y \<noteq> F" by (auto dest: trancl_into_rtrancl)
  with agree have "callees M' y = callees M y" by (simp add: callees_def)
  with step.hyps(2) have "(y, z) \<in> callEdges M" by simp
  with step.IH show ?case by (rule trancl_into_trancl)
qed

lemma splitterCaller_off_F:
  assumes agree: "\<And>g. g \<noteq> F \<Longrightarrow> M' g = M g"
    and noF: "(t, F) \<notin> (callEdges M)\<^sup>*"
    and sc: "splitterCaller M' SAA t"
  shows "splitterCaller M SAA t"
  using sc trancl_off_F [OF agree noF] unfolding splitterCaller_def by blast

lemma second_scan:
  assumes acyc: "acyclic (callEdges M)"
    and inv: "inlinerInv M SAA F bis M'" and bi: "bi \<in> bis"
    and fixed: "scanBlock M' SC1 SAA (blockAt M' F bi) = None"
    and sc1: "\<And>t. t \<in> reachableCalls M SAA F bis \<Longrightarrow> splitterCaller M SAA t \<Longrightarrow> t \<in> SC1"
    and sc2: "\<And>g. g \<in> SC2 \<Longrightarrow> splitterCaller M' SAA g"
  shows "scanBlock M' SC2 SAA (blockAt M' F bi) = None"
  unfolding scanBlock_None_iff
proof (intro allI impI conjI)
  fix t assume call: "Call (Some t) \<in> set (blockAt M' F bi)"
  from fixed call have
    a: "\<not> (t \<in> SC1 \<and> \<not> isSplitterFunc SAA t \<and> checkedInlineFunction M' t \<noteq> None)" and
    b: "\<not> (isSplitterFunc SAA t \<and> t \<noteq> BarrierIntrinsicName)"
    unfolding scanBlock_None_iff by blast+
  from b show "\<not> (isSplitterFunc SAA t \<and> t \<noteq> BarrierIntrinsicName)" .
  show "\<not> (t \<in> SC2 \<and> \<not> isSplitterFunc SAA t \<and> checkedInlineFunction M' t \<noteq> None)"
  proof
    assume c: "t \<in> SC2 \<and> \<not> isSplitterFunc SAA t \<and> checkedInlineFunction M' t \<noteq> None"
    then have nb: "t \<noteq> BarrierIntrinsicName" by (auto simp: checkedInlineFunction_def)
    with inv bi call have r: "t \<in> reachableCalls M SAA F bis"
      unfolding inlinerInv_def by blast
    then have p: "(F, t) \<in> (callEdges M)\<^sup>+" by (rule reachableCalls_trancl)
    have noF: "(t, F) \<notin> (callEdges M)\<^sup>*"
    proof
      assume "(t, F) \<in> (callEdges M)\<^sup>*"
      with p have "(F, F) \<in> (callEdges M)\<^sup>+" by (rule trancl_rtrancl_trancl)
      with acyc show False by (auto simp: acyclic_def)
    qed
    from inv have agree: "\<And>g. g \<noteq> F \<Longrightarrow> M' g = M g"
      unfolding inlinerInv_def frame_def by blast
    from c have "splitterCaller M' SAA t" by (blast intro: sc2)
    with agree noF have "splitterCaller M SAA t" by (rule splitterCaller_off_F)
    with r have "t \<in> SC1" by (rule sc1)
    with a c show False by blast
  qed
qed


lemma loop_inlinerInv:
  assumes "acyclic (callEdges M)"
    and "inlineCallsInLoop n M F L SC SAA = Some (c, M')"
  shows "inlinerInv M SAA F (set (getBlocks L)) M' \<and>
         (\<forall>bi \<in> set (getBlocks L). scanBlock M' SC SAA (blockAt M' F bi) = None)"
  using assms(2) unfolding inlineCallsInLoop_def
  by (rule loop_rule [where P = "inlinerInv M SAA F (set (getBlocks L))"])
     (simp_all add: inlinerInv_refl inlinerInv_step [OF assms(1)])

lemma function_inlinerInv:
  assumes "acyclic (callEdges M)"
    and "inlineCallsInFunction n M F SC SAA = Some (c, M')"
  shows "inlinerInv M SAA F UNIV M' \<and>
         (\<forall>bi < length (M' F). scanBlock M' SC SAA (blockAt M' F bi) = None)"
  using assms(2) unfolding inlineCallsInFunction_def
  by (rule function_rule [where P = "inlinerInv M SAA F UNIV"])
     (simp_all add: inlinerInv_refl inlinerInv_step [OF assms(1)])

lemma rank_trancl:
  assumes "\<And>f g. g \<in> callees M f \<Longrightarrow> rank g < (rank f :: nat)"
    and "(f, g) \<in> (callEdges M)\<^sup>+"
  shows "rank g < rank f"
  using assms(2)
proof (induction rule: trancl_induct)
  case (base y)
  then show ?case using assms(1) by simp
next
  case (step y z)
  from step.hyps(2) have "rank z < rank y" using assms(1) by simp
  with step.IH show ?case by simp
qed

lemma second_rank:
  assumes rank: "\<And>f g. g \<in> callees M f \<Longrightarrow> rank g < (rank f :: nat)"
    and bar: "M BarrierIntrinsicName = []"
    and inv: "inlinerInv M SAA F bis M'"
    and g: "g \<in> callees M' f"
  shows "(if g = BarrierIntrinsicName then 0 else Suc (rank g)) <
         (if f = BarrierIntrinsicName then 0 else Suc (rank f))"
proof -
  let ?B = BarrierIntrinsicName
  from inv have fr: "frame M F bis M'" unfolding inlinerInv_def by simp
  have nb: "f \<noteq> ?B"
  proof
    assume f: "f = ?B"
    show False
    proof (cases "f = F")
      case True
      with fr f bar have "M' f = []" by (simp add: frame_def)
      with g show False by (simp add: callees_def)
    next
      case False
      with fr have "M' f = M f" by (simp add: frame_def)
      with f bar have "M' f = []" by simp
      with g show False by (simp add: callees_def)
    qed
  qed
  have "rank g < rank f" if gb: "g \<noteq> ?B"
  proof (cases "f = F")
    case False
    with fr have "M' f = M f" by (simp add: frame_def)
    with g have "g \<in> callees M f" by (simp add: callees_def)
    then show ?thesis by (rule rank)
  next
    case True
    from g True have "Call (Some g) \<in> set (concat (M' F))" by (simp add: callees_def)
    then obtain bi where bi: "Call (Some g) \<in> set (blockAt M' F bi)"
      unfolding in_concat_blockAt by blast
    show ?thesis
    proof (cases "bi \<in> bis")
      case True
      with inv bi gb have "g \<in> reachableCalls M SAA F bis" unfolding inlinerInv_def by blast
      then have "(F, g) \<in> (callEdges M)\<^sup>+" by (rule reachableCalls_trancl)
      with rank have "rank g < rank F" by (rule rank_trancl)
      with \<open>f = F\<close> show ?thesis by simp
    next
      case False
      with fr have "blockAt M' F bi = blockAt M F bi" by (simp add: frame_def)
      with bi have "g \<in> callees M F" by (simp add: blockAt_callees)
      then have "rank g < rank F" by (rule rank)
      with \<open>f = F\<close> show ?thesis by simp
    qed
  qed
  with nb show ?thesis by auto
qed

lemma second_fill_total:
  assumes fin: "finite (callEdges M)" and acyc: "acyclic (callEdges M)"
    and bar: "M BarrierIntrinsicName = []"
    and inv: "inlinerInv M SAA F bis M'"
    and fuel: "card (callEdges M) + 1 < m"
  shows "fillTransitiveSplitterCallers m M' SAA f S \<noteq> None"
proof -
  from rank_exists [OF fin acyc] obtain rank :: "fname \<Rightarrow> nat" where
    r: "\<And>f g. g \<in> callees M f \<Longrightarrow> rank g < rank f" and b: "\<And>f. rank f \<le> card (callEdges M)"
    by auto
  let ?rank = "\<lambda>f. if f = BarrierIntrinsicName then 0 else Suc (rank f)"
  have "?rank g < ?rank f" if "g \<in> callees M' f" for f g
    using r bar inv that by (rule second_rank)
  moreover have "?rank f < m" using b [of f] fuel by simp
  ultimately show ?thesis by (rule fill_terminates [where rank = ?rank])
qed

lemma fill_sound:
  assumes "fillTransitiveSplitterCallers n M SAA F {} = Some (b, S)" and "g \<in> S"
  shows "splitterCaller M SAA g"
  using fill_exact [OF assms(1) splitterClosed_empty] assms(2)
  by (simp add: splitterSet_Function_def)

lemma fill_Loop_exact:
  assumes "fillTransitiveSplitterCallers_Loop n M SAA F L {} = Some (b, S)"
  shows "S = splitterSet_Blocks M SAA (map (blockAt M F) (getBlocks L)) \<and>
         b = (\<exists>c \<in> set (calledFunctions (concat (map (blockAt M F) (getBlocks L)))).
                splitterCaller M SAA c)"
proof -
  let ?Is = "concat (map (blockAt M F) (getBlocks L))"
  from assms have
    r: "fillTransitiveSplitterCallers_Instrs (fillTransitiveSplitterCallers n M SAA) ?Is {} = Some (b, S)"
    by (simp add: fillTransitiveSplitterCallers_Loop_def fillTransitiveSplitterCallers_Blocks_def)
  have "S = {} \<union> (\<Union>c \<in> set (calledFunctions ?Is). splitterSet_Function M SAA c) \<and>
        b = (\<exists>c \<in> set (calledFunctions ?Is). splitterCaller M SAA c)"
    using r splitterClosed_empty
    by (rule fill_Instrs_exact [rotated]) (use fill_exact in blast)
  then show ?thesis by (simp add: splitterSet_Blocks_eq)
qed

lemma fill_Loop_sound:
  assumes "fillTransitiveSplitterCallers_Loop n M SAA F L {} = Some (b, S)" and "g \<in> S"
  shows "splitterCaller M SAA g"
  using fill_Loop_exact [OF assms(1)] assms(2)
  by (auto simp: splitterSet_Blocks_def)

lemma fill_Loop_total:
  assumes "\<And>f S. fillTransitiveSplitterCallers n M SAA f S \<noteq> None"
  shows "fillTransitiveSplitterCallers_Loop n M SAA F L {} \<noteq> None"
  unfolding fillTransitiveSplitterCallers_Loop_def fillTransitiveSplitterCallers_Blocks_def
  by (rule fill_Instrs_terminates) (rule assms)


lemma reachableCalls_loop:
  assumes "t \<in> reachableCalls M SAA F (set bis)" and "splitterCaller M SAA t"
  shows "t \<in> splitterSet_Blocks M SAA (map (blockAt M F) bis)"
proof -
  from assms(1) obtain bi c where
    c: "bi \<in> set bis" "Call (Some c) \<in> set (blockAt M F bi)"
    and p: "(c, t) \<in> (nsEdges M SAA)\<^sup>*"
    by (auto simp: reachableCalls_def)
  from c have "Call (Some c) \<in> set (concat (map (blockAt M F) bis))" by auto
  then have "c \<in> set (calledFunctions (concat (map (blockAt M F) bis)))" by simp
  with p assms(2) show ?thesis unfolding splitterSet_Blocks_def by blast
qed

lemma reachableCalls_function:
  assumes "\<not> isSplitterFunc SAA F"
    and "t \<in> reachableCalls M SAA F bis" and "splitterCaller M SAA t"
  shows "t \<in> splitterSet_Function M SAA F"
proof -
  from assms(2) obtain bi c where
    c: "Call (Some c) \<in> set (blockAt M F bi)" and p: "(c, t) \<in> (nsEdges M SAA)\<^sup>*"
    by (auto simp: reachableCalls_def)
  from c assms(1) have "(F, c) \<in> nsEdges M SAA" by (simp add: blockAt_callees)
  from this p have "(F, t) \<in> (nsEdges M SAA)\<^sup>*" by (rule converse_rtrancl_into_rtrancl)
  with assms(3) show ?thesis by (simp add: splitterSet_Function_def)
qed

lemma second_run_loop:
  assumes fin: "finite (callEdges M)" and acyc: "acyclic (callEdges M)"
    and bar: "M BarrierIntrinsicName = []"
    and first: "inlineSplitter_Loop n M F L SAA = Some (c, M')"
    and fuel: "card (callEdges M) + 1 < m"
  shows "inlineSplitter_Loop m M' F L SAA = Some (False, M')"
proof (cases "isWorkItemLoop L")
  case False
  with first show ?thesis by (simp add: inlineSplitter_Loop_def)
next
  case wi: True
  from fuel have fuel': "card (callEdges M) < m" by simp
  from fuel obtain k where m: "m = Suc (Suc k)" by (cases m; cases "m - 1") auto
  from first wi obtain Found SC1 where
    f1: "fillTransitiveSplitterCallers_Loop n M SAA F L {} = Some (Found, SC1)"
    by (auto simp: inlineSplitter_Loop_def split: option.splits)
  note e1 = fill_Loop_exact [OF f1]
  show ?thesis
  proof (cases Found)
    case False
    with first wi f1 have same: "M' = M" by (simp add: inlineSplitter_Loop_def)
    from fill_Loop_result [OF fin acyc fuel', of SAA F L] e1 False
    have "fillTransitiveSplitterCallers_Loop m M SAA F L {} = Some (False, SC1)" by simp
    with wi same show ?thesis by (simp add: inlineSplitter_Loop_def)
  next
    case True
    with first wi f1 have r1: "inlineCallsInLoop n M F L SC1 SAA = Some (c, M')"
      by (simp add: inlineSplitter_Loop_def)
    from loop_inlinerInv [OF acyc r1] have
      inv: "inlinerInv M SAA F (set (getBlocks L)) M'" and
      fixed: "\<And>bi. bi \<in> set (getBlocks L) \<Longrightarrow> scanBlock M' SC1 SAA (blockAt M' F bi) = None"
      by simp_all
    have "fillTransitiveSplitterCallers_Loop m M' SAA F L {} \<noteq> None"
      by (rule fill_Loop_total) (rule second_fill_total [OF fin acyc bar inv fuel])
    then obtain Found2 SC2 where
      f2: "fillTransitiveSplitterCallers_Loop m M' SAA F L {} = Some (Found2, SC2)"
      by auto
    have "\<forall>bi \<in> set (getBlocks L). scanBlock M' SC2 SAA (blockAt M' F bi) = None"
    proof
      fix bi assume bi: "bi \<in> set (getBlocks L)"
      from acyc inv bi fixed [OF bi]
      show "scanBlock M' SC2 SAA (blockAt M' F bi) = None"
      proof (rule second_scan)
        fix t assume "t \<in> reachableCalls M SAA F (set (getBlocks L))" "splitterCaller M SAA t"
        then show "t \<in> SC1" using e1 reachableCalls_loop by blast
      next
        fix g assume "g \<in> SC2"
        with f2 show "splitterCaller M' SAA g" by (rule fill_Loop_sound)
      qed
    qed
    then have "inlineCallsInLoop m M' F L SC2 SAA = Some (False, M')"
      unfolding m by (rule loop_noop)
    with wi f2 show ?thesis by (simp add: inlineSplitter_Loop_def)
  qed
qed

lemma second_run_function:
  assumes fin: "finite (callEdges M)" and acyc: "acyclic (callEdges M)"
    and bar: "M BarrierIntrinsicName = []"
    and first: "functionScopedTransformation n M F SAA = Some (c, M')"
    and fuel: "card (callEdges M) + 1 < m"
  shows "functionScopedTransformation m M' F SAA = Some (False, M')"
proof -
  from fuel have fuel': "card (callEdges M) < m" by simp
  from fuel obtain k where m: "m = Suc (Suc k)" by (cases m; cases "m - 1") auto
  from first obtain Found SC1 where
    f1: "fillTransitiveSplitterCallers n M SAA F {} = Some (Found, SC1)"
    by (auto simp: functionScopedTransformation_def split: option.splits)
  from fill_exact [OF f1 splitterClosed_empty] have
    e1: "SC1 = splitterSet_Function M SAA F" "Found = splitterCaller M SAA F"
    by simp_all
  show ?thesis
  proof (cases Found)
    case False
    with first f1 have same: "M' = M" by (simp add: functionScopedTransformation_def)
    from fill_Function_result [OF fin acyc fuel', of SAA F] e1 False
    have "fillTransitiveSplitterCallers m M SAA F {} = Some (False, SC1)" by simp
    with same show ?thesis by (simp add: functionScopedTransformation_def)
  next
    case True
    with first f1 have r1: "inlineCallsInFunction n M F SC1 SAA = Some (c, M')"
      by (simp add: functionScopedTransformation_def)
    from function_inlinerInv [OF acyc r1] have
      inv: "inlinerInv M SAA F UNIV M'" and
      fixed: "\<And>bi. bi < length (M' F) \<Longrightarrow> scanBlock M' SC1 SAA (blockAt M' F bi) = None"
      by simp_all
    show ?thesis
    proof (cases "isSplitterFunc SAA F")
      case True
      then have f2: "fillTransitiveSplitterCallers m M' SAA F {} = Some (True, {F})"
        unfolding m by simp
      from True e1 have "SC1 = {F}" by (simp add: splitterSet_splitter)
      with fixed have "\<forall>bi < length (M' F). scanBlock M' {F} SAA (blockAt M' F bi) = None"
        by simp
      then have "inlineCallsInFunction m M' F {F} SAA = Some (False, M')"
        unfolding m by (rule function_noop)
      with f2 show ?thesis by (simp add: functionScopedTransformation_def)
    next
      case ns: False
      have "fillTransitiveSplitterCallers m M' SAA F {} \<noteq> None"
        by (rule second_fill_total [OF fin acyc bar inv fuel])
      then obtain Found2 SC2 where
        f2: "fillTransitiveSplitterCallers m M' SAA F {} = Some (Found2, SC2)"
        by auto
      have "\<forall>bi < length (M' F). scanBlock M' SC2 SAA (blockAt M' F bi) = None"
      proof (intro allI impI)
        fix bi assume bi: "bi < length (M' F)"
        have "bi \<in> (UNIV :: nat set)" by simp
        with acyc inv show "scanBlock M' SC2 SAA (blockAt M' F bi) = None"
        proof (rule second_scan)
          show "scanBlock M' SC1 SAA (blockAt M' F bi) = None" using bi by (rule fixed)
        next
          fix t assume "t \<in> reachableCalls M SAA F UNIV" "splitterCaller M SAA t"
          with ns show "t \<in> SC1" unfolding e1 by (rule reachableCalls_function)
        next
          fix g assume "g \<in> SC2"
          with f2 show "splitterCaller M' SAA g" by (rule fill_sound)
        qed
      qed
      then have "inlineCallsInFunction m M' F SC2 SAA = Some (False, M')"
        unfolding m by (rule function_noop)
      with f2 show ?thesis by (simp add: functionScopedTransformation_def)
    qed
  qed
qed

lemma inlineSplitter_scopes:
  "inlineSplitter n M F LI SAA =
     (case getSingleWorkItemLoop LI of
        Some L \<Rightarrow> inlineSplitter_Loop n M F L SAA
      | None \<Rightarrow> functionScopedTransformation n M F SAA)"
  by (auto simp: inlineSplitter_def functionScopedTransformation_def split: option.splits)

lemma second_run_inlineSplitter:
  assumes "finite (callEdges M)" and "acyclic (callEdges M)"
    and "M BarrierIntrinsicName = []"
    and "inlineSplitter n M F LI SAA = Some (c, M')"
    and "card (callEdges M) + 1 < m"
  shows "inlineSplitter m M' F LI SAA = Some (False, M')"
proof (cases "getSingleWorkItemLoop LI")
  case None
  with assms(4) have "functionScopedTransformation n M F SAA = Some (c, M')"
    by (simp add: inlineSplitter_scopes)
  from second_run_function [OF assms(1-3) this assms(5)] None
  show ?thesis by (simp add: inlineSplitter_scopes)
next
  case (Some L)
  with assms(4) have "inlineSplitter_Loop n M F L SAA = Some (c, M')"
    by (simp add: inlineSplitter_scopes)
  from second_run_loop [OF assms(1-3) this assms(5)] Some
  show ?thesis by (simp add: inlineSplitter_scopes)
qed

section \<open>Termination of the inliner\<close>

lemma calledFunctions_append:
  "calledFunctions (xs @ ys) = calledFunctions xs @ calledFunctions ys"
  by (induction xs rule: calledFunctions.induct) simp_all

lemma scanBlock_shape:
  "scanBlock X SC SAA BB0 = Some BB \<Longrightarrow>
     \<exists>pre u new post. BB0 = pre @ Call (Some u) # post \<and> BB = pre @ new @ post \<and>
       u \<noteq> BarrierIntrinsicName \<and>
       (\<not> isSplitterFunc SAA u \<and> new = concat (X u) \<or> new = [Call (Some BarrierIntrinsicName)])"
proof (induction BB0 arbitrary: BB)
  case Nil
  then show ?case by simp
next
  case (Cons I rest)
  let ?goal = "\<lambda>BB0 BB. \<exists>pre u new post. BB0 = pre @ Call (Some u) # post \<and> BB = pre @ new @ post \<and>
       u \<noteq> BarrierIntrinsicName \<and>
       (\<not> isSplitterFunc SAA u \<and> new = concat (X u) \<or> new = [Call (Some BarrierIntrinsicName)])"
  have skip: "?goal (I # rest) BB"
    if "scanBlock X SC SAA (I # rest) = map_option ((#) I) (scanBlock X SC SAA rest)"
  proof -
    from that Cons.prems obtain BB1 where
      r: "scanBlock X SC SAA rest = Some BB1" and BB: "BB = I # BB1"
      by (cases "scanBlock X SC SAA rest") auto
    from Cons.IH [OF r] obtain pre u new post where
      s: "rest = pre @ Call (Some u) # post" "BB1 = pre @ new @ post"
      and k: "u \<noteq> BarrierIntrinsicName"
        "\<not> isSplitterFunc SAA u \<and> new = concat (X u) \<or> new = [Call (Some BarrierIntrinsicName)]"
      by blast
    from s BB have "I # rest = (I # pre) @ Call (Some u) # post" "BB = (I # pre) @ new @ post"
      by simp_all
    with k show ?thesis by blast
  qed
  show ?case
  proof (cases "\<exists>u. I = Call (Some u)")
    case False
    then have "scanBlock X SC SAA (I # rest) = map_option ((#) I) (scanBlock X SC SAA rest)"
      by (cases I; cases "case I of Call x \<Rightarrow> x | _ \<Rightarrow> None"; simp)
    then show ?thesis by (rule skip)
  next
    case True
    then obtain u where I: "I = Call (Some u)" by blast
    show ?thesis
    proof (cases "u \<in> SC \<and> \<not> isSplitterFunc SAA u")
      case inl: True
      show ?thesis
      proof (cases "checkedInlineFunction X u")
        case None
        with inl I show ?thesis by (intro skip) simp
      next
        case (Some body)
        with inl I Cons.prems have BB: "BB = body @ rest" by simp
        from Some have body: "body = concat (X u)" "u \<noteq> BarrierIntrinsicName"
          by (auto simp: checkedInlineFunction_def split: if_splits)
        have "I # rest = [] @ Call (Some u) # rest" "BB = [] @ body @ rest"
          using BB I by simp_all
        with inl body show ?thesis by blast
      qed
    next
      case ninl: False
      show ?thesis
      proof (cases "isSplitterFunc SAA u \<and> u \<noteq> BarrierIntrinsicName")
        case True
        with ninl I Cons.prems have BB: "BB = Call (Some BarrierIntrinsicName) # rest"
          by (auto simp: createBarrier_def)
        have "I # rest = [] @ Call (Some u) # rest"
          "BB = [] @ [Call (Some BarrierIntrinsicName)] @ rest"
          using BB I by simp_all
        with True show ?thesis by blast
      next
        case False
        with ninl I show ?thesis by (intro skip) auto
      qed
    qed
  qed
qed

lemma rank_acyclic:
  assumes "\<And>f g. g \<in> callees M f \<Longrightarrow> rank g < (rank f :: nat)"
  shows "acyclic (callEdges M)"
  unfolding acyclic_def
proof (intro allI notI)
  fix x assume "(x, x) \<in> (callEdges M)\<^sup>+"
  with assms have "rank x < rank x" by (rule rank_trancl)
  then show False by simp
qed

lemma concat_nth_split:
  "bi < length xs \<Longrightarrow> concat xs = concat (take bi xs) @ xs ! bi @ concat (drop (Suc bi) xs)"
  by (metis append_Cons append_Nil concat.simps(2) concat_append id_take_nth_drop)

lemma concat_update_split:
  "bi < length xs \<Longrightarrow> concat (xs[bi := b]) = concat (take bi xs) @ b @ concat (drop (Suc bi) xs)"
  by (simp add: upd_conv_take_nth_drop)

lemma step_measure:
  assumes rank: "\<And>f g. g \<in> callees M f \<Longrightarrow> rank g < (rank f :: nat)"
    and inv: "inlinerInv M SAA F bis X" and bi: "bi \<in> bis"
    and scan: "scanBlock X SC SAA (blockAt X F bi) = Some BB"
  shows "(callMeasure rank (X(F := (X F)[bi := BB])) F, callMeasure rank X F) \<in> mult less_than"
proof -
  let ?B = BarrierIntrinsicName
  let ?w = "callWeight rank"
  from scan have len: "bi < length (X F)" by (auto simp: blockAt_def split: if_splits)
  then have blk: "blockAt X F bi = X F ! bi" by (simp add: blockAt_def)
  from scanBlock_shape [OF scan] blk obtain pre u new post where
    old: "X F ! bi = pre @ Call (Some u) # post" and new: "BB = pre @ new @ post"
    and ub: "u \<noteq> ?B"
    and kind: "\<not> isSplitterFunc SAA u \<and> new = concat (X u) \<or> new = [Call (Some ?B)]"
    by auto
  let ?I = "mset (map ?w (calledFunctions (concat (take bi (X F)) @ pre))) +
            mset (map ?w (calledFunctions (post @ concat (drop (Suc bi) (X F)))))"
  let ?K = "mset (map ?w (calledFunctions new))"
  let ?J = "{#?w u#}"
  have m_old: "callMeasure rank X F = ?I + ?J"
    unfolding callMeasure_def
    by (subst concat_nth_split [OF len]) (simp add: old calledFunctions_append)
  have m_new: "callMeasure rank (X(F := (X F)[bi := BB])) F = ?I + ?K"
    unfolding callMeasure_def
    by (simp add: concat_update_split [OF len] new calledFunctions_append)
  have small: "\<forall>k \<in> set_mset ?K. \<exists>j \<in> set_mset ?J. (k, j) \<in> less_than"
  proof
    fix k assume "k \<in> set_mset ?K"
    then obtain t where t: "Call (Some t) \<in> set new" and k: "k = ?w t" by auto
    have "?w t < ?w u"
      using kind
    proof
      assume a: "\<not> isSplitterFunc SAA u \<and> new = concat (X u)"
      from old have "Call (Some u) \<in> set (blockAt X F bi)" by (simp add: blk)
      with inv bi ub have r: "u \<in> reachableCalls M SAA F bis" unfolding inlinerInv_def by blast
      then have "(F, u) \<in> (callEdges M)\<^sup>+" by (rule reachableCalls_trancl)
      with rank have "rank u < rank F" by (rule rank_trancl)
      then have "u \<noteq> F" by auto
      with inv have "X u = M u" unfolding inlinerInv_def frame_def by blast
      with a t have "t \<in> callees M u" by (simp add: callees_def)
      then have "rank t < rank u" by (rule rank)
      with ub show ?thesis by (simp add: callWeight_def)
    next
      assume "new = [Call (Some ?B)]"
      with t have "t = ?B" by simp
      with ub show ?thesis by (simp add: callWeight_def)
    qed
    with k show "\<exists>j \<in> set_mset ?J. (k, j) \<in> less_than" by simp
  qed
  have "(?I + ?K, ?I + ?J) \<in> mult less_than"
    by (rule one_step_implies_mult) (use small in auto)
  with m_old m_new show ?thesis by simp
qed

lemma bb_measure:
  assumes rank: "\<And>f g. g \<in> callees M f \<Longrightarrow> rank g < (rank f :: nat)"
    and inv: "inlinerInv M SAA F bis X" and bi: "bi \<in> bis"
    and run: "inlineCallsInBasicBlock n X F bi SC SAA = Some (c1, X1)"
  shows "inlinerInv M SAA F bis X1 \<and>
         (if c1 then (callMeasure rank X1 F, callMeasure rank X F) \<in> mult less_than else X1 = X)"
proof -
  let ?P = "\<lambda>c Y. inlinerInv M SAA F bis Y \<and>
         (if c then (callMeasure rank Y F, callMeasure rank X F) \<in> mult less_than else Y = X)"
  have "?P c1 X1 \<and> scanBlock X1 SC SAA (blockAt X1 F bi) = None"
    using run unfolding inlineCallsInBasicBlock_def
  proof (rule bb_loop_rule [where P = ?P])
    show "?P False X" using inv by simp
  next
    fix c Y BB
    assume P: "?P c Y" and scan: "scanBlock Y SC SAA (blockAt Y F bi) = Some BB"
    let ?Y' = "Y(F := (Y F)[bi := BB])"
    from P have invY: "inlinerInv M SAA F bis Y" by simp
    from rank_acyclic [OF rank] invY bi scan have inv': "inlinerInv M SAA F bis ?Y'"
      by (rule inlinerInv_step)
    from rank invY bi scan have
      d: "(callMeasure rank ?Y' F, callMeasure rank Y F) \<in> mult less_than"
      by (rule step_measure)
    have "(callMeasure rank ?Y' F, callMeasure rank X F) \<in> mult less_than"
    proof (cases c)
      case True
      with P have "(callMeasure rank Y F, callMeasure rank X F) \<in> mult less_than" by simp
      with d show ?thesis unfolding mult_def by (rule trancl_trans)
    next
      case False
      with P d show ?thesis by simp
    qed
    with inv' show "?P True ?Y'" by simp
  qed
  then show ?thesis by simp
qed

lemma blocks_measure:
  assumes rank: "\<And>f g. g \<in> callees M f \<Longrightarrow> rank g < (rank f :: nat)"
  shows "inlinerInv M SAA F bis X \<Longrightarrow> set bl \<subseteq> bis \<Longrightarrow>
         inlineCallsInBlocks n X F bl SC SAA = Some (c1, X1) \<Longrightarrow>
         inlinerInv M SAA F bis X1 \<and>
         (if c1 then (callMeasure rank X1 F, callMeasure rank X F) \<in> mult less_than else X1 = X)"
proof (induction bl)
  case Nil
  then show ?case by simp
next
  case (Cons bi bl)
  from Cons.prems(3) obtain c2 X2 where
    r: "inlineCallsInBasicBlock n X F bi SC SAA = Some (c2, X2)"
    by (cases "inlineCallsInBasicBlock n X F bi SC SAA") auto
  from Cons.prems(2) have bi: "bi \<in> bis" by simp
  note m = bb_measure [OF rank Cons.prems(1) bi r]
  show ?case
  proof (cases c2)
    case True
    with r Cons.prems(3) have "c1 = True" "X1 = X2" by simp_all
    with m True show ?thesis by simp
  next
    case False
    with m have "X2 = X" by simp
    with r False Cons.prems(3) have "inlineCallsInBlocks n X F bl SC SAA = Some (c1, X1)"
      by simp
    with Cons.IH Cons.prems(1,2) show ?thesis by simp
  qed
qed


lemma bb_loop_mono:
  "inlineCallsInBasicBlock_loop n c X F bi SC SAA = Some r \<Longrightarrow> n \<le> m \<Longrightarrow>
   inlineCallsInBasicBlock_loop m c X F bi SC SAA = Some r"
proof (induction n arbitrary: m c X)
  case 0
  then show ?case by simp
next
  case (Suc n)
  from Suc.prems(2) obtain m' where m: "m = Suc m'" "n \<le> m'" by (cases m) auto
  show ?case
  proof (cases "scanBlock X SC SAA (blockAt X F bi)")
    case None
    with Suc.prems(1) m show ?thesis by simp
  next
    case (Some BB)
    let ?X' = "X(F := (X F)[bi := BB])"
    have e: "inlineCallsInBasicBlock_loop (Suc k) c X F bi SC SAA =
             inlineCallsInBasicBlock_loop k True ?X' F bi SC SAA" for k
      using Some by simp
    from Suc.prems(1) have "inlineCallsInBasicBlock_loop n True ?X' F bi SC SAA = Some r"
      unfolding e .
    then have "inlineCallsInBasicBlock_loop m' True ?X' F bi SC SAA = Some r"
      using m(2) by (rule Suc.IH)
    then show ?thesis unfolding m(1) e .
  qed
qed

lemma blocks_mono:
  "inlineCallsInBlocks n X F bl SC SAA = Some r \<Longrightarrow> n \<le> m \<Longrightarrow>
   inlineCallsInBlocks m X F bl SC SAA = Some r"
proof (induction bl arbitrary: X)
  case Nil
  then show ?case by simp
next
  case (Cons bi bl)
  from Cons.prems(1) obtain c1 X1 where
    r1: "inlineCallsInBasicBlock n X F bi SC SAA = Some (c1, X1)"
    by (cases "inlineCallsInBasicBlock n X F bi SC SAA") auto
  then have r1': "inlineCallsInBasicBlock m X F bi SC SAA = Some (c1, X1)"
    unfolding inlineCallsInBasicBlock_def using Cons.prems(2) by (rule bb_loop_mono)
  show ?case
  proof (cases c1)
    case True
    with r1 Cons.prems(1) have "r = (True, X1)" by simp
    with r1' True show ?thesis by simp
  next
    case False
    with r1 Cons.prems(1) have "inlineCallsInBlocks n X1 F bl SC SAA = Some r" by simp
    from Cons.IH [OF this Cons.prems(2)] r1' False show ?thesis by simp
  qed
qed

lemma loop_loop_mono:
  "inlineCallsInLoop_loop n c X F L SC SAA = Some r \<Longrightarrow> n \<le> m \<Longrightarrow>
   inlineCallsInLoop_loop m c X F L SC SAA = Some r"
proof (induction n arbitrary: m c X)
  case 0
  then show ?case by simp
next
  case (Suc n)
  from Suc.prems(2) obtain m' where m: "m = Suc m'" "n \<le> m'" by (cases m) auto
  from Suc.prems(1) obtain c1 X1 where
    r1: "inlineCallsInBlocks n X F (getBlocks L) SC SAA = Some (c1, X1)"
    by (cases "inlineCallsInBlocks n X F (getBlocks L) SC SAA") auto
  from blocks_mono [OF r1 m(2)] have
    r1': "inlineCallsInBlocks m' X F (getBlocks L) SC SAA = Some (c1, X1)" .
  show ?case
  proof (cases c1)
    case False
    with r1 r1' Suc.prems(1) m(1) show ?thesis by simp
  next
    case True
    with r1 Suc.prems(1) have "inlineCallsInLoop_loop n True X1 F L SC SAA = Some r"
      by (simp add: updateDtAndLi_def)
    from Suc.IH [OF this m(2)] r1' True m(1) show ?thesis by (simp add: updateDtAndLi_def)
  qed
qed

lemma function_loop_mono:
  "inlineCallsInFunction_loop n c X F SC SAA = Some r \<Longrightarrow> n \<le> m \<Longrightarrow>
   inlineCallsInFunction_loop m c X F SC SAA = Some r"
proof (induction n arbitrary: m c X)
  case 0
  then show ?case by simp
next
  case (Suc n)
  from Suc.prems(2) obtain m' where m: "m = Suc m'" "n \<le> m'" by (cases m) auto
  from Suc.prems(1) obtain c1 X1 where
    r1: "inlineCallsInBlocks n X F [0 ..< length (X F)] SC SAA = Some (c1, X1)"
    by (cases "inlineCallsInBlocks n X F [0 ..< length (X F)] SC SAA") auto
  from blocks_mono [OF r1 m(2)] have
    r1': "inlineCallsInBlocks m' X F [0 ..< length (X F)] SC SAA = Some (c1, X1)" .
  show ?case
  proof (cases c1)
    case False
    with r1 r1' Suc.prems(1) m(1) show ?thesis by simp
  next
    case True
    with r1 Suc.prems(1) have "inlineCallsInFunction_loop n True X1 F SC SAA = Some r"
      by simp
    from Suc.IH [OF this m(2)] r1' True m(1) show ?thesis by simp
  qed
qed

lemma bb_total:
  assumes rank: "\<And>f g. g \<in> callees M f \<Longrightarrow> rank g < (rank f :: nat)"
    and bi: "bi \<in> bis"
  shows "inlinerInv M SAA F bis X \<Longrightarrow>
         \<exists>n r. inlineCallsInBasicBlock_loop n c X F bi SC SAA = Some r"
proof (induction "callMeasure rank X F" arbitrary: X c
    rule: wf_induct_rule [OF wf_mult [OF wf_less_than], case_names less])
  case less
  show ?case
  proof (cases "scanBlock X SC SAA (blockAt X F bi)")
    case None
    then have "inlineCallsInBasicBlock_loop (Suc 0) c X F bi SC SAA = Some (c, X)" by simp
    then show ?thesis by blast
  next
    case (Some BB)
    let ?X' = "X(F := (X F)[bi := BB])"
    from rank_acyclic [OF rank] less.prems bi Some have "inlinerInv M SAA F bis ?X'"
      by (rule inlinerInv_step)
    moreover from rank less.prems bi Some have
      "(callMeasure rank ?X' F, callMeasure rank X F) \<in> mult less_than"
      by (rule step_measure)
    ultimately obtain n r where
      r: "inlineCallsInBasicBlock_loop n True ?X' F bi SC SAA = Some r"
      using less.hyps by blast
    have "inlineCallsInBasicBlock_loop (Suc n) c X F bi SC SAA =
          inlineCallsInBasicBlock_loop n True ?X' F bi SC SAA"
      using Some by simp
    with r have "inlineCallsInBasicBlock_loop (Suc n) c X F bi SC SAA = Some r"
      by (simp only:)
    then show ?thesis by blast
  qed
qed

lemma blocks_total:
  assumes rank: "\<And>f g. g \<in> callees M f \<Longrightarrow> rank g < (rank f :: nat)"
    and inv: "inlinerInv M SAA F bis X"
  shows "set bl \<subseteq> bis \<Longrightarrow> \<exists>n r. inlineCallsInBlocks n X F bl SC SAA = Some r"
proof (induction bl)
  case Nil
  have "inlineCallsInBlocks 0 X F [] SC SAA = Some (False, X)" by simp
  then show ?case by blast
next
  case (Cons bi bl)
  from Cons.prems have bi: "bi \<in> bis" by simp
  have "\<exists>n r. inlineCallsInBasicBlock_loop n False X F bi SC SAA = Some r"
    using rank bi inv by (rule bb_total)
  then obtain n1 r1 where "inlineCallsInBasicBlock n1 X F bi SC SAA = Some r1"
    unfolding inlineCallsInBasicBlock_def by blast
  then obtain c1 X1 where
    r1: "inlineCallsInBasicBlock n1 X F bi SC SAA = Some (c1, X1)"
    by (cases r1) auto
  show ?case
  proof (cases c1)
    case True
    with r1 have "inlineCallsInBlocks n1 X F (bi # bl) SC SAA = Some (True, X1)" by simp
    then show ?thesis by blast
  next
    case False
    with r1 have "inlineCallsInBasicBlock n1 X F bi SC SAA = Some (False, X1)" by simp
    from bb_unchanged [OF this] have same: "X1 = X" by simp
    from Cons.IH Cons.prems obtain n2 r where
      r2: "inlineCallsInBlocks n2 X F bl SC SAA = Some r" by auto
    have "inlineCallsInBasicBlock (max n1 n2) X F bi SC SAA = Some (c1, X1)"
      using r1 unfolding inlineCallsInBasicBlock_def by (rule bb_loop_mono) simp
    moreover have "inlineCallsInBlocks (max n1 n2) X F bl SC SAA = Some r"
      using r2 by (rule blocks_mono) simp
    ultimately have "inlineCallsInBlocks (max n1 n2) X F (bi # bl) SC SAA = Some r"
      using False same by simp
    then show ?thesis by blast
  qed
qed

lemma loop_total:
  assumes rank: "\<And>f g. g \<in> callees M f \<Longrightarrow> rank g < (rank f :: nat)"
  shows "inlinerInv M SAA F (set (getBlocks L)) X \<Longrightarrow>
         \<exists>n r. inlineCallsInLoop_loop n c X F L SC SAA = Some r"
proof (induction "callMeasure rank X F" arbitrary: X c
    rule: wf_induct_rule [OF wf_mult [OF wf_less_than], case_names less])
  case less
  have "\<exists>n r. inlineCallsInBlocks n X F (getBlocks L) SC SAA = Some r"
    using rank less.prems subset_refl by (rule blocks_total)
  then obtain n1 r1 where "inlineCallsInBlocks n1 X F (getBlocks L) SC SAA = Some r1"
    by blast
  then obtain c1 X1 where
    r1: "inlineCallsInBlocks n1 X F (getBlocks L) SC SAA = Some (c1, X1)"
    by (cases r1) auto
  show ?case
  proof (cases c1)
    case False
    with r1 have "inlineCallsInLoop_loop (Suc n1) c X F L SC SAA = Some (c, X1)" by simp
    then show ?thesis by blast
  next
    case True
    from blocks_measure [OF rank less.prems _ r1] True have
      "inlinerInv M SAA F (set (getBlocks L)) X1"
      "(callMeasure rank X1 F, callMeasure rank X F) \<in> mult less_than"
      by simp_all
    then obtain n2 r where r2: "inlineCallsInLoop_loop n2 True X1 F L SC SAA = Some r"
      using less.hyps by blast
    have "inlineCallsInBlocks (max n1 n2) X F (getBlocks L) SC SAA = Some (c1, X1)"
      using r1 by (rule blocks_mono) simp
    moreover have "inlineCallsInLoop_loop (max n1 n2) True X1 F L SC SAA = Some r"
      using r2 by (rule loop_loop_mono) simp
    ultimately have "inlineCallsInLoop_loop (Suc (max n1 n2)) c X F L SC SAA = Some r"
      using True by (simp add: updateDtAndLi_def)
    then show ?thesis by blast
  qed
qed

lemma function_total:
  assumes rank: "\<And>f g. g \<in> callees M f \<Longrightarrow> rank g < (rank f :: nat)"
  shows "inlinerInv M SAA F UNIV X \<Longrightarrow>
         \<exists>n r. inlineCallsInFunction_loop n c X F SC SAA = Some r"
proof (induction "callMeasure rank X F" arbitrary: X c
    rule: wf_induct_rule [OF wf_mult [OF wf_less_than], case_names less])
  case less
  have "\<exists>n r. inlineCallsInBlocks n X F [0 ..< length (X F)] SC SAA = Some r"
    using rank less.prems subset_UNIV by (rule blocks_total)
  then obtain n1 r1 where "inlineCallsInBlocks n1 X F [0 ..< length (X F)] SC SAA = Some r1"
    by blast
  then obtain c1 X1 where
    r1: "inlineCallsInBlocks n1 X F [0 ..< length (X F)] SC SAA = Some (c1, X1)"
    by (cases r1) auto
  show ?case
  proof (cases c1)
    case False
    with r1 have "inlineCallsInFunction_loop (Suc n1) c X F SC SAA = Some (c, X1)" by simp
    then show ?thesis by blast
  next
    case True
    from blocks_measure [OF rank less.prems _ r1] True have
      "inlinerInv M SAA F UNIV X1"
      "(callMeasure rank X1 F, callMeasure rank X F) \<in> mult less_than"
      by simp_all
    then obtain n2 r where r2: "inlineCallsInFunction_loop n2 True X1 F SC SAA = Some r"
      using less.hyps by blast
    have "inlineCallsInBlocks (max n1 n2) X F [0 ..< length (X F)] SC SAA = Some (c1, X1)"
      using r1 by (rule blocks_mono) simp
    moreover have "inlineCallsInFunction_loop (max n1 n2) True X1 F SC SAA = Some r"
      using r2 by (rule function_loop_mono) simp
    ultimately have "inlineCallsInFunction_loop (Suc (max n1 n2)) c X F SC SAA = Some r"
      using True by simp
    then show ?thesis by blast
  qed
qed


lemma inlineCallsInLoop_total:
  assumes "finite (callEdges M)" and "acyclic (callEdges M)"
  shows "\<exists>n0. \<forall>n \<ge> n0. \<exists>r. inlineCallsInLoop n M F L SC SAA = Some r"
proof -
  from rank_exists [OF assms] obtain rank :: "fname \<Rightarrow> nat" where
    rank: "\<And>f g. g \<in> callees M f \<Longrightarrow> rank g < rank f" by auto
  have "\<exists>n r. inlineCallsInLoop_loop n False M F L SC SAA = Some r"
    using rank inlinerInv_refl by (rule loop_total)
  then obtain n0 r where r: "inlineCallsInLoop_loop n0 False M F L SC SAA = Some r" by blast
  have "inlineCallsInLoop n M F L SC SAA = Some r" if "n0 \<le> n" for n
    unfolding inlineCallsInLoop_def using r that by (rule loop_loop_mono)
  then show ?thesis by blast
qed

lemma inlineCallsInFunction_total:
  assumes "finite (callEdges M)" and "acyclic (callEdges M)"
  shows "\<exists>n0. \<forall>n \<ge> n0. \<exists>r. inlineCallsInFunction n M F SC SAA = Some r"
proof -
  from rank_exists [OF assms] obtain rank :: "fname \<Rightarrow> nat" where
    rank: "\<And>f g. g \<in> callees M f \<Longrightarrow> rank g < rank f" by auto
  have "\<exists>n r. inlineCallsInFunction_loop n False M F SC SAA = Some r"
    using rank inlinerInv_refl by (rule function_total)
  then obtain n0 r where r: "inlineCallsInFunction_loop n0 False M F SC SAA = Some r" by blast
  have "inlineCallsInFunction n M F SC SAA = Some r" if "n0 \<le> n" for n
    unfolding inlineCallsInFunction_def using r that by (rule function_loop_mono)
  then show ?thesis by blast
qed

lemma inlineSplitter_total:
  assumes fin: "finite (callEdges M)" and acyc: "acyclic (callEdges M)"
  shows "\<exists>n0. \<forall>n \<ge> n0. \<exists>r. inlineSplitter n M F LI SAA = Some r"
proof (cases "getSingleWorkItemLoop LI")
  case (Some L)
  let ?Found = "\<exists>c \<in> set (calledFunctions (concat (map (blockAt M F) (getBlocks L)))).
                   splitterCaller M SAA c"
  let ?SC = "splitterSet_Blocks M SAA (map (blockAt M F) (getBlocks L))"
  from inlineCallsInLoop_total [OF fin acyc] obtain n1 where
    n1: "\<And>n. n1 \<le> n \<Longrightarrow> \<exists>r. inlineCallsInLoop n M F L ?SC SAA = Some r" by blast
  have "\<exists>r. inlineSplitter n M F LI SAA = Some r" if "max n1 (Suc (card (callEdges M))) \<le> n" for n
  proof -
    from that have "card (callEdges M) < n" "n1 \<le> n" by simp_all
    from fill_Loop_result [OF fin acyc this(1), of SAA F L] n1 [OF this(2)] Some
    show ?thesis by (auto simp: inlineSplitter_def inlineSplitter_Loop_def)
  qed
  then show ?thesis by blast
next
  case None
  let ?SC = "splitterSet_Function M SAA F"
  from inlineCallsInFunction_total [OF fin acyc] obtain n1 where
    n1: "\<And>n. n1 \<le> n \<Longrightarrow> \<exists>r. inlineCallsInFunction n M F ?SC SAA = Some r" by blast
  have "\<exists>r. inlineSplitter n M F LI SAA = Some r" if "max n1 (Suc (card (callEdges M))) \<le> n" for n
  proof -
    from that have "card (callEdges M) < n" "n1 \<le> n" by simp_all
    from fill_Function_result [OF fin acyc this(1), of SAA F] n1 [OF this(2)] None
    show ?thesis by (auto simp: inlineSplitter_def)
  qed
  then show ?thesis by blast
qed

lemma pass_total:
  assumes "finite (callEdges M)" and "acyclic (callEdges M)"
  shows "\<exists>n0. \<forall>n \<ge> n0. (\<exists>c M'. runOnFunction n M F LI SAA = Some (c, M')) \<and>
                           (\<exists>pa M'. run n M F LI SAAopt = Some (pa, M'))"
proof -
  have "\<exists>n0. \<forall>n \<ge> n0. \<exists>pa M'. run n M F LI SAAopt = Some (pa, M')"
  proof (cases SAAopt)
    case None
    then show ?thesis by (simp add: run_def)
  next
    case (Some SAA')
    from inlineSplitter_total [OF assms, of F LI SAA'] obtain n0 where
      "\<And>n. n0 \<le> n \<Longrightarrow> \<exists>r. inlineSplitter n M F LI SAA' = Some r" by blast
    then have "\<exists>pa M'. run n M F LI SAAopt = Some (pa, M')" if "n0 \<le> n" for n
      using that Some by (fastforce simp: run_def)
    then show ?thesis by blast
  qed
  then obtain n2 where
    n2: "\<And>n. n2 \<le> n \<Longrightarrow> \<exists>pa M'. run n M F LI SAAopt = Some (pa, M')" by blast
  from inlineSplitter_total [OF assms, of F LI SAA] obtain n1 where
    "\<And>n. n1 \<le> n \<Longrightarrow> \<exists>r. inlineSplitter n M F LI SAA = Some r" by blast
  then have n1: "\<exists>c M'. runOnFunction n M F LI SAA = Some (c, M')" if "n1 \<le> n" for n
    using that by (fastforce simp: runOnFunction_def)
  have "(\<exists>c M'. runOnFunction n M F LI SAA = Some (c, M')) \<and>
        (\<exists>pa M'. run n M F LI SAAopt = Some (pa, M'))" if "max n1 n2 \<le> n" for n
    using that n1 [of n] n2 [of n] by simp
  then show ?thesis by blast
qed

section \<open>The result of the inliner\<close>

lemma expandInstrs_append:
  "expandInstrs sub M SC SAA (xs @ ys) =
     expandInstrs sub M SC SAA xs @ expandInstrs sub M SC SAA ys"
  by (induction sub M SC SAA xs rule: expandInstrs.induct) simp_all

lemma expandInstrs_cong:
  "(\<And>t. Call (Some t) \<in> set Is \<Longrightarrow> sub t = sub' t) \<Longrightarrow>
   expandInstrs sub M SC SAA Is = expandInstrs sub' M SC SAA Is"
proof (induction Is)
  case Nil
  then show ?case by simp
next
  case (Cons I Is)
  then have tl: "expandInstrs sub M SC SAA Is = expandInstrs sub' M SC SAA Is" by simp
  show ?case
  proof (cases "\<exists>t. I = Call (Some t)")
    case True
    then obtain t where I: "I = Call (Some t)" by blast
    with Cons.prems have "sub t = sub' t" by simp
    with tl I show ?thesis by auto
  next
    case False
    with tl show ?thesis
      by (cases I; cases "case I of Call x \<Rightarrow> x | _ \<Rightarrow> None"; simp)
  qed
qed

lemma expandInstrs_id:
  "(\<And>t. Call (Some t) \<in> set Is \<Longrightarrow>
      \<not> (t \<in> SC \<and> \<not> isSplitterFunc SAA t \<and> checkedInlineFunction M t \<noteq> None) \<and>
      \<not> (isSplitterFunc SAA t \<and> t \<noteq> BarrierIntrinsicName)) \<Longrightarrow>
   expandInstrs sub M SC SAA Is = Is"
proof (induction Is)
  case Nil
  then show ?case by simp
next
  case (Cons I Is)
  then have tl: "expandInstrs sub M SC SAA Is = Is" by simp
  show ?case
  proof (cases "\<exists>t. I = Call (Some t)")
    case True
    then obtain t where I: "I = Call (Some t)" by blast
    with Cons.prems [of t] have
      "\<not> (t \<in> SC \<and> \<not> isSplitterFunc SAA t \<and> checkedInlineFunction M t \<noteq> None)"
      "\<not> (isSplitterFunc SAA t \<and> t \<noteq> BarrierIntrinsicName)"
      by simp_all
    with tl I show ?thesis by auto
  next
    case False
    with tl show ?thesis
      by (cases I; cases "case I of Call x \<Rightarrow> x | _ \<Rightarrow> None"; simp)
  qed
qed

lemma expandCall_stable:
  assumes rank: "\<And>f g. g \<in> callees M f \<Longrightarrow> rank g < (rank f :: nat)"
  shows "rank t < n \<Longrightarrow> rank t < m \<Longrightarrow> expandCall n M SC SAA t = expandCall m M SC SAA t"
proof (induction n arbitrary: m t)
  case 0
  then show ?case by simp
next
  case (Suc n)
  from Suc.prems(2) obtain m' where m: "m = Suc m'" by (cases m) auto
  have "expandInstrs (expandCall n M SC SAA) M SC SAA (concat (M t)) =
        expandInstrs (expandCall m' M SC SAA) M SC SAA (concat (M t))"
  proof (rule expandInstrs_cong)
    fix u assume "Call (Some u) \<in> set (concat (M t))"
    then have "u \<in> callees M t" by (simp add: callees_def)
    then have "rank u < rank t" by (rule rank)
    with Suc.prems m have "rank u < n" "rank u < m'" by simp_all
    then show "expandCall n M SC SAA u = expandCall m' M SC SAA u" by (rule Suc.IH)
  qed
  with m show ?case by simp
qed

lemma expandCall_unfold:
  assumes rank: "\<And>f g. g \<in> callees M f \<Longrightarrow> rank g < (rank f :: nat)"
    and d: "rank t < d"
  shows "expandCall d M SC SAA t = expandedBlock d M SC SAA (concat (M t))"
proof -
  from d have "rank t < Suc d" by simp
  with rank d have "expandCall d M SC SAA t = expandCall (Suc d) M SC SAA t"
    by (rule expandCall_stable)
  then show ?thesis by (simp add: expandedBlock_def)
qed

lemma scanBlock_step:
  "scanBlock X SC SAA BB0 = Some BB \<Longrightarrow>
     \<exists>pre u post. BB0 = pre @ Call (Some u) # post \<and>
       (u \<in> SC \<and> \<not> isSplitterFunc SAA u \<and>
          (\<exists>body. checkedInlineFunction X u = Some body \<and> BB = pre @ body @ post) \<or>
        isSplitterFunc SAA u \<and> u \<noteq> BarrierIntrinsicName \<and>
          BB = pre @ Call (Some BarrierIntrinsicName) # post)"
proof (induction BB0 arbitrary: BB)
  case Nil
  then show ?case by simp
next
  case (Cons I rest)
  let ?goal = "\<lambda>BB0 BB. \<exists>pre u post. BB0 = pre @ Call (Some u) # post \<and>
       (u \<in> SC \<and> \<not> isSplitterFunc SAA u \<and>
          (\<exists>body. checkedInlineFunction X u = Some body \<and> BB = pre @ body @ post) \<or>
        isSplitterFunc SAA u \<and> u \<noteq> BarrierIntrinsicName \<and>
          BB = pre @ Call (Some BarrierIntrinsicName) # post)"
  have skip: "?goal (I # rest) BB"
    if "scanBlock X SC SAA (I # rest) = map_option ((#) I) (scanBlock X SC SAA rest)"
  proof -
    from that Cons.prems obtain BB1 where
      r: "scanBlock X SC SAA rest = Some BB1" and BB: "BB = I # BB1"
      by (cases "scanBlock X SC SAA rest") auto
    from Cons.IH [OF r] obtain pre u post where
      s: "rest = pre @ Call (Some u) # post"
      and k: "u \<in> SC \<and> \<not> isSplitterFunc SAA u \<and>
          (\<exists>body. checkedInlineFunction X u = Some body \<and> BB1 = pre @ body @ post) \<or>
        isSplitterFunc SAA u \<and> u \<noteq> BarrierIntrinsicName \<and>
          BB1 = pre @ Call (Some BarrierIntrinsicName) # post"
      by blast
    from s have s': "I # rest = (I # pre) @ Call (Some u) # post" by simp
    from k BB have "u \<in> SC \<and> \<not> isSplitterFunc SAA u \<and>
          (\<exists>body. checkedInlineFunction X u = Some body \<and> BB = (I # pre) @ body @ post) \<or>
        isSplitterFunc SAA u \<and> u \<noteq> BarrierIntrinsicName \<and>
          BB = (I # pre) @ Call (Some BarrierIntrinsicName) # post"
      by auto
    with s' show ?thesis by blast
  qed
  show ?case
  proof (cases "\<exists>u. I = Call (Some u)")
    case False
    then have "scanBlock X SC SAA (I # rest) = map_option ((#) I) (scanBlock X SC SAA rest)"
      by (cases I; cases "case I of Call x \<Rightarrow> x | _ \<Rightarrow> None"; simp)
    then show ?thesis by (rule skip)
  next
    case True
    then obtain u where I: "I = Call (Some u)" by blast
    show ?thesis
    proof (cases "u \<in> SC \<and> \<not> isSplitterFunc SAA u")
      case inl: True
      show ?thesis
      proof (cases "checkedInlineFunction X u")
        case None
        with inl I show ?thesis by (intro skip) simp
      next
        case (Some body)
        with inl I Cons.prems have BB: "BB = [] @ body @ rest" by simp
        have "I # rest = [] @ Call (Some u) # rest" using I by simp
        with inl Some BB show ?thesis by blast
      qed
    next
      case ninl: False
      show ?thesis
      proof (cases "isSplitterFunc SAA u \<and> u \<noteq> BarrierIntrinsicName")
        case True
        with ninl I Cons.prems have BB: "BB = [] @ Call (Some BarrierIntrinsicName) # rest"
          by (auto simp: createBarrier_def)
        have "I # rest = [] @ Call (Some u) # rest" using I by simp
        with True BB show ?thesis by blast
      next
        case False
        with ninl I show ?thesis by (intro skip) auto
      qed
    qed
  qed
qed

lemma expandedBlock_barrier:
  "expandedBlock d M SC SAA [Call (Some BarrierIntrinsicName)] = [Call (Some BarrierIntrinsicName)]"
  by (simp add: expandedBlock_def checkedInlineFunction_def)

lemma expandedBlock_append:
  "expandedBlock d M SC SAA (xs @ ys) = expandedBlock d M SC SAA xs @ expandedBlock d M SC SAA ys"
  by (simp add: expandedBlock_def expandInstrs_append)

lemma reachable_agree:
  assumes rank: "\<And>f g. g \<in> callees M f \<Longrightarrow> rank g < (rank f :: nat)"
    and inv: "inlinerInv M SAA F bis X" and bi: "bi \<in> bis"
    and call: "Call (Some u) \<in> set (blockAt X F bi)"
  shows "checkedInlineFunction X u = checkedInlineFunction M u"
proof (cases "u = BarrierIntrinsicName")
  case True
  then show ?thesis by (simp add: checkedInlineFunction_def)
next
  case False
  with inv bi call have "u \<in> reachableCalls M SAA F bis" unfolding inlinerInv_def by blast
  then have "(F, u) \<in> (callEdges M)\<^sup>+" by (rule reachableCalls_trancl)
  with rank have "rank u < rank F" by (rule rank_trancl)
  then have "u \<noteq> F" by auto
  with inv have "X u = M u" unfolding inlinerInv_def frame_def by blast
  then show ?thesis by (simp add: checkedInlineFunction_def)
qed

lemma step_expanded:
  assumes rank: "\<And>f g. g \<in> callees M f \<Longrightarrow> rank g < (rank f :: nat)"
    and d: "\<And>t. rank t < d"
    and inv: "inlinerInv M SAA F bis X" and bi: "bi \<in> bis"
    and scan: "scanBlock X SC SAA (blockAt X F bi) = Some BB"
  shows "expandedBlock d M SC SAA BB = expandedBlock d M SC SAA (blockAt X F bi)"
proof -
  let ?B = BarrierIntrinsicName
  let ?N = "expandedBlock d M SC SAA"
  from scanBlock_step [OF scan] obtain pre u post where
    old: "blockAt X F bi = pre @ Call (Some u) # post"
    and kind: "u \<in> SC \<and> \<not> isSplitterFunc SAA u \<and>
          (\<exists>body. checkedInlineFunction X u = Some body \<and> BB = pre @ body @ post) \<or>
        isSplitterFunc SAA u \<and> u \<noteq> ?B \<and> BB = pre @ Call (Some ?B) # post"
    by blast
  from old have call: "Call (Some u) \<in> set (blockAt X F bi)" by simp
  have agree: "checkedInlineFunction X u = checkedInlineFunction M u"
    using rank inv bi call by (rule reachable_agree)
  from kind show ?thesis
  proof
    assume a: "u \<in> SC \<and> \<not> isSplitterFunc SAA u \<and>
          (\<exists>body. checkedInlineFunction X u = Some body \<and> BB = pre @ body @ post)"
    then obtain body where body: "checkedInlineFunction M u = Some body"
      and BB: "BB = pre @ body @ post"
      using agree by auto
    from body have b: "body = concat (M u)"
      by (auto simp: checkedInlineFunction_def split: if_splits)
    from a body have "?N [Call (Some u)] = expandCall d M SC SAA u"
      by (simp add: expandedBlock_def)
    also have "\<dots> = ?N (concat (M u))" using rank d by (rule expandCall_unfold)
    finally have "?N [Call (Some u)] = ?N body" using b by simp
    then have "?N (pre @ [Call (Some u)] @ post) = ?N (pre @ body @ post)"
      by (simp only: expandedBlock_append)
    with old BB show ?thesis by simp
  next
    assume a: "isSplitterFunc SAA u \<and> u \<noteq> ?B \<and> BB = pre @ Call (Some ?B) # post"
    then have "?N [Call (Some u)] = [Call (Some ?B)]" by (simp add: expandedBlock_def)
    then have "?N [Call (Some u)] = ?N [Call (Some ?B)]"
      by (simp only: expandedBlock_barrier)
    then have "?N (pre @ [Call (Some u)] @ post) = ?N (pre @ [Call (Some ?B)] @ post)"
      by (simp only: expandedBlock_append)
    with old a show ?thesis by simp
  qed
qed

lemma fixed_expanded:
  assumes rank: "\<And>f g. g \<in> callees M f \<Longrightarrow> rank g < (rank f :: nat)"
    and inv: "inlinerInv M SAA F bis X" and bi: "bi \<in> bis"
    and scan: "scanBlock X SC SAA (blockAt X F bi) = None"
  shows "expandedBlock d M SC SAA (blockAt X F bi) = blockAt X F bi"
  unfolding expandedBlock_def
proof (rule expandInstrs_id)
  fix t assume call: "Call (Some t) \<in> set (blockAt X F bi)"
  have "checkedInlineFunction X t = checkedInlineFunction M t"
    using rank inv bi call by (rule reachable_agree)
  with scan call show
    "\<not> (t \<in> SC \<and> \<not> isSplitterFunc SAA t \<and> checkedInlineFunction M t \<noteq> None) \<and>
     \<not> (isSplitterFunc SAA t \<and> t \<noteq> BarrierIntrinsicName)"
    unfolding scanBlock_None_iff by metis
qed


lemma expanded_step:
  assumes rank: "\<And>f g. g \<in> callees M f \<Longrightarrow> rank g < (rank f :: nat)"
    and d: "\<And>t. rank t < d"
    and P: "inlinerInv M SAA F bis X \<and>
            (\<forall>bj \<in> bis. expandedBlock d M SC SAA (blockAt X F bj) =
                          expandedBlock d M SC SAA (blockAt M F bj))"
    and bi: "bi \<in> bis"
    and scan: "scanBlock X SC SAA (blockAt X F bi) = Some BB"
  shows "inlinerInv M SAA F bis (X(F := (X F)[bi := BB])) \<and>
         (\<forall>bj \<in> bis. expandedBlock d M SC SAA (blockAt (X(F := (X F)[bi := BB])) F bj) =
                       expandedBlock d M SC SAA (blockAt M F bj))"
proof (intro conjI ballI)
  from P have inv: "inlinerInv M SAA F bis X" by simp
  from rank_acyclic [OF rank] inv bi scan
  show "inlinerInv M SAA F bis (X(F := (X F)[bi := BB]))" by (rule inlinerInv_step)
  fix bj assume bj: "bj \<in> bis"
  from rank d inv bi scan have
    e: "expandedBlock d M SC SAA BB = expandedBlock d M SC SAA (blockAt X F bi)"
    by (rule step_expanded)
  from P bj bi have old: "expandedBlock d M SC SAA (blockAt X F bj) =
                          expandedBlock d M SC SAA (blockAt M F bj)"
    "expandedBlock d M SC SAA (blockAt X F bi) = expandedBlock d M SC SAA (blockAt M F bi)"
    by simp_all
  show "expandedBlock d M SC SAA (blockAt (X(F := (X F)[bi := BB])) F bj) =
        expandedBlock d M SC SAA (blockAt M F bj)"
  proof (cases "bj = bi \<and> bi < length (X F)")
    case True
    then have "blockAt (X(F := (X F)[bi := BB])) F bj = BB" by (simp add: blockAt_update)
    with e old True show ?thesis by simp
  next
    case False
    then have "blockAt (X(F := (X F)[bi := BB])) F bj = blockAt X F bj"
      by (auto simp: blockAt_update)
    with old show ?thesis by simp
  qed
qed

lemma function_expanded:
  assumes rank: "\<And>f g. g \<in> callees M f \<Longrightarrow> rank g < (rank f :: nat)"
    and d: "\<And>t. rank t < d"
    and run: "inlineCallsInFunction n M F SC SAA = Some (c, M')"
  shows "M' = M(F := expandedFunction d M F SC SAA)"
proof -
  let ?N = "expandedBlock d M SC SAA"
  let ?P = "\<lambda>X. inlinerInv M SAA F UNIV X \<and>
            (\<forall>bj \<in> UNIV. ?N (blockAt X F bj) = ?N (blockAt M F bj))"
  have "?P M' \<and> (\<forall>bi < length (M' F). scanBlock M' SC SAA (blockAt M' F bi) = None)"
    using run unfolding inlineCallsInFunction_def
  proof (rule function_rule [where P = ?P])
    show "?P M" by (simp add: inlinerInv_refl)
  next
    fix X BB bi
    assume "?P X" "bi < length (X F)" "scanBlock X SC SAA (blockAt X F bi) = Some BB"
    with rank d show "?P (X(F := (X F)[bi := BB]))"
      by (intro expanded_step [where bis = UNIV]) simp_all
  qed
  then have inv: "inlinerInv M SAA F UNIV M'"
    and same: "\<And>bj. ?N (blockAt M' F bj) = ?N (blockAt M F bj)"
    and fixed: "\<And>bi. bi < length (M' F) \<Longrightarrow> scanBlock M' SC SAA (blockAt M' F bi) = None"
    by simp_all
  from inv have len: "length (M' F) = length (M F)" and other: "\<And>g. g \<noteq> F \<Longrightarrow> M' g = M g"
    unfolding inlinerInv_def frame_def by simp_all
  have "M' F = map ?N (M F)"
  proof (rule nth_equalityI)
    show "length (M' F) = length (map ?N (M F))" using len by simp
  next
    fix i assume i: "i < length (M' F)"
    have "i \<in> (UNIV :: nat set)" by simp
    with rank inv have "?N (blockAt M' F i) = blockAt M' F i"
      using fixed [OF i] by (rule fixed_expanded)
    with same [of i] i len show "M' F ! i = map ?N (M F) ! i" by (simp add: blockAt_def)
  qed
  with other show ?thesis by (auto simp: expandedFunction_def)
qed

lemma loop_expanded:
  assumes rank: "\<And>f g. g \<in> callees M f \<Longrightarrow> rank g < (rank f :: nat)"
    and d: "\<And>t. rank t < d"
    and run: "inlineCallsInLoop n M F L SC SAA = Some (c, M')"
  shows "M' = M(F := expandedLoop d M F L SC SAA)"
proof -
  let ?N = "expandedBlock d M SC SAA"
  let ?bis = "set (getBlocks L)"
  let ?P = "\<lambda>X. inlinerInv M SAA F ?bis X \<and>
            (\<forall>bj \<in> ?bis. ?N (blockAt X F bj) = ?N (blockAt M F bj))"
  have "?P M' \<and> (\<forall>bi \<in> ?bis. scanBlock M' SC SAA (blockAt M' F bi) = None)"
    using run unfolding inlineCallsInLoop_def
  proof (rule loop_rule [where P = ?P])
    show "?P M" by (simp add: inlinerInv_refl)
  next
    fix X BB bi
    assume "?P X" "bi \<in> ?bis" "scanBlock X SC SAA (blockAt X F bi) = Some BB"
    with rank d show "?P (X(F := (X F)[bi := BB]))"
      by (intro expanded_step [where bis = ?bis]) simp_all
  qed
  then have inv: "inlinerInv M SAA F ?bis M'"
    and same: "\<And>bj. bj \<in> ?bis \<Longrightarrow> ?N (blockAt M' F bj) = ?N (blockAt M F bj)"
    and fixed: "\<And>bi. bi \<in> ?bis \<Longrightarrow> scanBlock M' SC SAA (blockAt M' F bi) = None"
    by simp_all
  from inv have len: "length (M' F) = length (M F)" and other: "\<And>g. g \<noteq> F \<Longrightarrow> M' g = M g"
    and out: "\<And>bj. bj \<notin> ?bis \<Longrightarrow> blockAt M' F bj = blockAt M F bj"
    unfolding inlinerInv_def frame_def by simp_all
  have "M' F = expandedLoop d M F L SC SAA"
    unfolding expandedLoop_def
  proof (rule nth_equalityI)
    show "length (M' F) =
          length (map (\<lambda>i. if i \<in> ?bis then ?N (M F ! i) else M F ! i) [0 ..< length (M F)])"
      using len by simp
  next
    fix i assume i: "i < length (M' F)"
    show "M' F ! i = map (\<lambda>i. if i \<in> ?bis then ?N (M F ! i) else M F ! i) [0 ..< length (M F)] ! i"
    proof (cases "i \<in> ?bis")
      case True
      with rank inv have "?N (blockAt M' F i) = blockAt M' F i"
        using fixed [OF True] by (rule fixed_expanded)
      with same [OF True] True i len show ?thesis by (simp add: blockAt_def)
    next
      case False
      with out [OF False] i len show ?thesis by (simp add: blockAt_def)
    qed
  qed
  with other show ?thesis by auto
qed

lemma blocks_all_None:
  "\<forall>bi \<in> set bl. scanBlock M SC SAA (blockAt M F bi) = None \<Longrightarrow>
   inlineCallsInBlocks k M F bl SC SAA = Some r \<Longrightarrow> r = (False, M)"
proof (induction bl)
  case Nil
  then show ?case by simp
next
  case (Cons bi bl)
  from Cons.prems(1) have none: "scanBlock M SC SAA (blockAt M F bi) = None" by simp
  from Cons.prems(2) obtain k' where k: "k = Suc k'"
    by (cases k) (auto simp: inlineCallsInBasicBlock_def)
  from none have "inlineCallsInBasicBlock k M F bi SC SAA = Some (False, M)"
    unfolding k by (rule bb_noop)
  with Cons.prems(2) have "inlineCallsInBlocks k M F bl SC SAA = Some r" by simp
  with Cons.IH Cons.prems(1) show ?case by simp
qed

lemma function_loop_True:
  "inlineCallsInFunction_loop n True X F SC SAA = Some (c, X') \<Longrightarrow> c"
proof (induction n arbitrary: X)
  case 0
  then show ?case by simp
next
  case (Suc n)
  from Suc.prems obtain c1 X1 where
    r1: "inlineCallsInBlocks n X F [0 ..< length (X F)] SC SAA = Some (c1, X1)"
    by (cases "inlineCallsInBlocks n X F [0 ..< length (X F)] SC SAA") auto
  show ?case
  proof (cases c1)
    case True
    with r1 Suc.prems have "inlineCallsInFunction_loop n True X1 F SC SAA = Some (c, X')"
      by simp
    then show ?thesis by (rule Suc.IH)
  next
    case False
    with r1 Suc.prems show ?thesis by simp
  qed
qed

lemma loop_loop_True:
  "inlineCallsInLoop_loop n True X F L SC SAA = Some (c, X') \<Longrightarrow> c"
proof (induction n arbitrary: X)
  case 0
  then show ?case by simp
next
  case (Suc n)
  from Suc.prems obtain c1 X1 where
    r1: "inlineCallsInBlocks n X F (getBlocks L) SC SAA = Some (c1, X1)"
    by (cases "inlineCallsInBlocks n X F (getBlocks L) SC SAA") auto
  show ?case
  proof (cases c1)
    case True
    with r1 Suc.prems have "inlineCallsInLoop_loop n True X1 F L SC SAA = Some (c, X')"
      by (simp add: updateDtAndLi_def)
    then show ?thesis by (rule Suc.IH)
  next
    case False
    with r1 Suc.prems show ?thesis by simp
  qed
qed

lemma function_changed:
  assumes "inlineCallsInFunction n M F SC SAA = Some (c, M')"
  shows "c \<longleftrightarrow> (\<exists>bi < length (M F). scanBlock M SC SAA (blockAt M F bi) \<noteq> None)"
proof -
  from assms obtain k where n: "n = Suc k"
    by (cases n) (auto simp: inlineCallsInFunction_def)
  from assms n obtain c1 X1 where
    r1: "inlineCallsInBlocks k M F [0 ..< length (M F)] SC SAA = Some (c1, X1)"
    unfolding inlineCallsInFunction_def
    by (cases "inlineCallsInBlocks k M F [0 ..< length (M F)] SC SAA") auto
  show ?thesis
  proof (cases c1)
    case True
    with r1 assms n have "inlineCallsInFunction_loop k True X1 F SC SAA = Some (c, M')"
      by (simp add: inlineCallsInFunction_def)
    then have c by (rule function_loop_True)
    moreover have "\<exists>bi < length (M F). scanBlock M SC SAA (blockAt M F bi) \<noteq> None"
    proof (rule ccontr)
      assume "\<not> (\<exists>bi < length (M F). scanBlock M SC SAA (blockAt M F bi) \<noteq> None)"
      then have "\<forall>bi \<in> set [0 ..< length (M F)]. scanBlock M SC SAA (blockAt M F bi) = None"
        by simp
      from blocks_all_None [OF this r1] True show False by simp
    qed
    ultimately show ?thesis by simp
  next
    case False
    with r1 assms n have "c = False" by (simp add: inlineCallsInFunction_def)
    moreover from r1 False have
      "inlineCallsInBlocks k M F [0 ..< length (M F)] SC SAA = Some (False, X1)" by simp
    from blocks_unchanged [OF this] have
      "\<forall>bi < length (M F). scanBlock M SC SAA (blockAt M F bi) = None" by simp
    ultimately show ?thesis by simp
  qed
qed

lemma loop_changed:
  assumes "inlineCallsInLoop n M F L SC SAA = Some (c, M')"
  shows "c \<longleftrightarrow> (\<exists>bi \<in> set (getBlocks L). scanBlock M SC SAA (blockAt M F bi) \<noteq> None)"
proof -
  from assms obtain k where n: "n = Suc k"
    by (cases n) (auto simp: inlineCallsInLoop_def)
  from assms n obtain c1 X1 where
    r1: "inlineCallsInBlocks k M F (getBlocks L) SC SAA = Some (c1, X1)"
    unfolding inlineCallsInLoop_def
    by (cases "inlineCallsInBlocks k M F (getBlocks L) SC SAA") auto
  show ?thesis
  proof (cases c1)
    case True
    with r1 assms n have "inlineCallsInLoop_loop k True X1 F L SC SAA = Some (c, M')"
      by (simp add: inlineCallsInLoop_def updateDtAndLi_def)
    then have c by (rule loop_loop_True)
    moreover have "\<exists>bi \<in> set (getBlocks L). scanBlock M SC SAA (blockAt M F bi) \<noteq> None"
    proof (rule ccontr)
      assume "\<not> (\<exists>bi \<in> set (getBlocks L). scanBlock M SC SAA (blockAt M F bi) \<noteq> None)"
      then have "\<forall>bi \<in> set (getBlocks L). scanBlock M SC SAA (blockAt M F bi) = None"
        by simp
      from blocks_all_None [OF this r1] True show False by simp
    qed
    ultimately show ?thesis by simp
  next
    case False
    with r1 assms n have "c = False" by (simp add: inlineCallsInLoop_def)
    moreover from r1 False have
      "inlineCallsInBlocks k M F (getBlocks L) SC SAA = Some (False, X1)" by simp
    from blocks_unchanged [OF this] have
      "\<forall>bi \<in> set (getBlocks L). scanBlock M SC SAA (blockAt M F bi) = None" by simp
    ultimately show ?thesis by simp
  qed
qed

lemma inliner_result:
  assumes fin: "finite (callEdges M)" and acyc: "acyclic (callEdges M)"
    and d: "card (callEdges M) < d"
  shows "(inlineCallsInLoop n M F L SC SAA = Some (c, M') \<longrightarrow>
            M' = M(F := expandedLoop d M F L SC SAA) \<and>
            (c \<longleftrightarrow> (\<exists>bi \<in> set (getBlocks L). scanBlock M SC SAA (blockAt M F bi) \<noteq> None))) \<and>
         (inlineCallsInFunction n M F SC SAA = Some (c, M') \<longrightarrow>
            M' = M(F := expandedFunction d M F SC SAA) \<and>
            (c \<longleftrightarrow> (\<exists>bi < length (M F). scanBlock M SC SAA (blockAt M F bi) \<noteq> None)))"
proof -
  from rank_exists [OF fin acyc] obtain rank :: "fname \<Rightarrow> nat" where
    rank: "\<And>f g. g \<in> callees M f \<Longrightarrow> rank g < rank f" and b: "\<And>f. rank f \<le> card (callEdges M)"
    by auto
  have rd: "rank t < d" for t using b [of t] d by simp
  have l: "M' = M(F := expandedLoop d M F L SC SAA)"
    if "inlineCallsInLoop n M F L SC SAA = Some (c, M')"
    using rank rd that by (rule loop_expanded)
  have f: "M' = M(F := expandedFunction d M F SC SAA)"
    if "inlineCallsInFunction n M F SC SAA = Some (c, M')"
    using rank rd that by (rule function_expanded)
  show ?thesis
    using l f loop_changed [of n M F L SC SAA c M'] function_changed [of n M F SC SAA c M']
    by blast
qed

lemma expandedBlock_lowered:
  assumes "isSplitterFunc SAA t" and "t \<noteq> BarrierIntrinsicName"
  shows "expandedBlock d M SC SAA (pre @ Call (Some t) # post) =
         expandedBlock d M SC SAA pre @ Call (Some BarrierIntrinsicName) # expandedBlock d M SC SAA post"
  using assms by (simp add: expandedBlock_def expandInstrs_append)

lemma expandedBlock_intrinsic:
  "expandedBlock d M SC SAA (pre @ Call (Some BarrierIntrinsicName) # post) =
   expandedBlock d M SC SAA pre @ Call (Some BarrierIntrinsicName) # expandedBlock d M SC SAA post"
  by (simp add: expandedBlock_def expandInstrs_append checkedInlineFunction_def)

section \<open>Lowering of barrier calls\<close>

text \<open>
  C4: when the scan reaches a call whose resolved target is annotated as a splitter and
  is not named as the canonical barrier intrinsic, the call is replaced by a call to
  the canonical barrier intrinsic at the same place, and the original call is gone; at
  the fixed point of the inliner no such call is left in the scope (the blocks of the
  loop, or the function), and in a finite module with a non-recursive call graph the
  inliner reaches its fixed point. A call to the canonical barrier intrinsic is never
  inlined: whatever a scan rewrites before or after it, the call stays where it is.

  For the whole scope: in a finite module with a non-recursive call graph, a run of the
  inliner on the function, or on the blocks of a loop, returns exactly the module in
  which every block of the scope is replaced by its expansion \<open>expandedBlock\<close> (for any
  depth beyond the number of call edges) and nothing else is changed, and it reports a
  change exactly when some block of the scope held a call to rewrite. In the expansion
  of a block, a call to a splitter not named as the canonical intrinsic has become one
  call to the intrinsic, between the expansion of what stood before it and the
  expansion of what stood after it, and a call to the intrinsic has stayed.
\<close>

theorem barrier_lowering:
  assumes "isSplitterFunc SAA t" and "t \<noteq> BarrierIntrinsicName"
  shows "(scanBlock M SC SAA pre = None \<longrightarrow>
            scanBlock M SC SAA (pre @ Call (Some t) # post) =
              Some (pre @ Call (Some BarrierIntrinsicName) # post)) \<and>
         (inlineCallsInLoop n M F L SC SAA = Some (c, M') \<longrightarrow> bi \<in> set (getBlocks L) \<longrightarrow>
            Call (Some t) \<notin> set (blockAt M' F bi)) \<and>
         (inlineCallsInFunction n M F SC SAA = Some (c, M') \<longrightarrow>
            Call (Some t) \<notin> set (concat (M' F))) \<and>
         checkedInlineFunction M BarrierIntrinsicName = None \<and>
         scanBlock M SC SAA (pre @ Call (Some BarrierIntrinsicName) # post) =
           (case scanBlock M SC SAA pre of
              Some pre' \<Rightarrow> Some (pre' @ Call (Some BarrierIntrinsicName) # post)
            | None \<Rightarrow>
                (case scanBlock M SC SAA post of
                   Some post' \<Rightarrow> Some (pre @ Call (Some BarrierIntrinsicName) # post')
                 | None \<Rightarrow> None)) \<and>
         (finite (callEdges M) \<longrightarrow> acyclic (callEdges M) \<longrightarrow>
            (\<exists>n0. \<forall>n \<ge> n0. \<exists>r. inlineCallsInLoop n M F L SC SAA = Some r) \<and>
            (\<exists>n0. \<forall>n \<ge> n0. \<exists>r. inlineCallsInFunction n M F SC SAA = Some r)) \<and>
         (finite (callEdges M) \<longrightarrow> acyclic (callEdges M) \<longrightarrow> card (callEdges M) < d \<longrightarrow>
            (inlineCallsInLoop n M F L SC SAA = Some (c, M') \<longrightarrow>
               M' = M(F := expandedLoop d M F L SC SAA) \<and>
               (c \<longleftrightarrow> (\<exists>bi \<in> set (getBlocks L). scanBlock M SC SAA (blockAt M F bi) \<noteq> None))) \<and>
            (inlineCallsInFunction n M F SC SAA = Some (c, M') \<longrightarrow>
               M' = M(F := expandedFunction d M F SC SAA) \<and>
               (c \<longleftrightarrow> (\<exists>bi < length (M F). scanBlock M SC SAA (blockAt M F bi) \<noteq> None)))) \<and>
         expandedBlock d M SC SAA (pre @ Call (Some t) # post) =
           expandedBlock d M SC SAA pre @ Call (Some BarrierIntrinsicName) #
           expandedBlock d M SC SAA post \<and>
         expandedBlock d M SC SAA (pre @ Call (Some BarrierIntrinsicName) # post) =
           expandedBlock d M SC SAA pre @ Call (Some BarrierIntrinsicName) #
           expandedBlock d M SC SAA post"
proof (intro conjI impI)
  assume "scanBlock M SC SAA pre = None"
  then show "scanBlock M SC SAA (pre @ Call (Some t) # post) =
      Some (pre @ Call (Some BarrierIntrinsicName) # post)"
    using assms by (simp add: scanBlock_append createBarrier_def)
next
  assume "inlineCallsInLoop n M F L SC SAA = Some (c, M')" "bi \<in> set (getBlocks L)"
  then have "scanBlock M' SC SAA (blockAt M' F bi) = None"
    unfolding inlineCallsInLoop_def by (rule loop_fixed)
  then show "Call (Some t) \<notin> set (blockAt M' F bi)"
    using assms by (auto simp: scanBlock_None_iff)
next
  assume r: "inlineCallsInFunction n M F SC SAA = Some (c, M')"
  show "Call (Some t) \<notin> set (concat (M' F))"
  proof
    assume "Call (Some t) \<in> set (concat (M' F))"
    then obtain bi where bi: "bi < length (M' F)" "Call (Some t) \<in> set (blockAt M' F bi)"
      unfolding in_concat_blockAt by blast
    from r bi(1) have "scanBlock M' SC SAA (blockAt M' F bi) = None"
      unfolding inlineCallsInFunction_def by (rule function_fixed)
    with bi(2) assms show False by (auto simp: scanBlock_None_iff)
  qed
next
  show "checkedInlineFunction M BarrierIntrinsicName = None"
    by (simp add: checkedInlineFunction_def)
next
  show "scanBlock M SC SAA (pre @ Call (Some BarrierIntrinsicName) # post) =
           (case scanBlock M SC SAA pre of
              Some pre' \<Rightarrow> Some (pre' @ Call (Some BarrierIntrinsicName) # post)
            | None \<Rightarrow>
                (case scanBlock M SC SAA post of
                   Some post' \<Rightarrow> Some (pre @ Call (Some BarrierIntrinsicName) # post')
                 | None \<Rightarrow> None))"
    by (cases "scanBlock M SC SAA pre")
       (auto simp: scanBlock_append scanBlock_append_Some checkedInlineFunction_def
             split: option.splits)
next
  assume "finite (callEdges M)" "acyclic (callEdges M)"
  then show "\<exists>n0. \<forall>n \<ge> n0. \<exists>r. inlineCallsInLoop n M F L SC SAA = Some r"
    by (rule inlineCallsInLoop_total)
next
  assume "finite (callEdges M)" "acyclic (callEdges M)"
  then show "\<exists>n0. \<forall>n \<ge> n0. \<exists>r. inlineCallsInFunction n M F SC SAA = Some r"
    by (rule inlineCallsInFunction_total)
next
  assume h: "finite (callEdges M)" "acyclic (callEdges M)" "card (callEdges M) < d"
    and r: "inlineCallsInLoop n M F L SC SAA = Some (c, M')"
  from inliner_result [OF h, of n F L SC SAA c M'] r
  show "M' = M(F := expandedLoop d M F L SC SAA)" by blast
next
  assume h: "finite (callEdges M)" "acyclic (callEdges M)" "card (callEdges M) < d"
    and r: "inlineCallsInLoop n M F L SC SAA = Some (c, M')"
  from loop_changed [OF r]
  show "c \<longleftrightarrow> (\<exists>bi \<in> set (getBlocks L). scanBlock M SC SAA (blockAt M F bi) \<noteq> None)" .
next
  assume h: "finite (callEdges M)" "acyclic (callEdges M)" "card (callEdges M) < d"
    and r: "inlineCallsInFunction n M F SC SAA = Some (c, M')"
  from inliner_result [OF h, of n F L SC SAA c M'] r
  show "M' = M(F := expandedFunction d M F SC SAA)" by blast
next
  assume h: "finite (callEdges M)" "acyclic (callEdges M)" "card (callEdges M) < d"
    and r: "inlineCallsInFunction n M F SC SAA = Some (c, M')"
  from function_changed [OF r]
  show "c \<longleftrightarrow> (\<exists>bi < length (M F). scanBlock M SC SAA (blockAt M F bi) \<noteq> None)" .
next
  show "expandedBlock d M SC SAA (pre @ Call (Some t) # post) =
           expandedBlock d M SC SAA pre @ Call (Some BarrierIntrinsicName) #
           expandedBlock d M SC SAA post"
    using assms by (rule expandedBlock_lowered)
next
  show "expandedBlock d M SC SAA (pre @ Call (Some BarrierIntrinsicName) # post) =
           expandedBlock d M SC SAA pre @ Call (Some BarrierIntrinsicName) #
           expandedBlock d M SC SAA post"
    by (rule expandedBlock_intrinsic)
qed

theorem barrier_lowering_witness:
  "isSplitterFunc exSAA ''barrier_user_named_sync'' \<and>
   ''barrier_user_named_sync'' \<noteq> BarrierIntrinsicName \<and>
   scanBlock exModule {''helper''} exSAA [Other 2, Call (Some ''barrier_user_named_sync''), Other 3]
     = Some [Other 2, Call (Some BarrierIntrinsicName), Other 3] \<and>
   inlineCallsInLoop 5 exModule ''K'' \<lparr>getBlocks = [0], isWorkItemLoop = True\<rparr>
       {''helper'', ''barrier_user_named_sync''} exSAA
     = Some (True, exModule(''K'' := [[Other 0, Other 2, Call (Some BarrierIntrinsicName), Other 3, Other 1]])) \<and>
   Call (Some ''barrier_user_named_sync'') \<notin> set (blockAt
     (exModule(''K'' := [[Other 0, Other 2, Call (Some BarrierIntrinsicName), Other 3, Other 1]])) ''K'' 0) \<and>
   scanBlock exModule {''helper''} exSAA [Other 2, Call (Some BarrierIntrinsicName), Other 3] = None \<and>
   finite (callEdges exModule) \<and> acyclic (callEdges exModule) \<and> card (callEdges exModule) < 5 \<and>
   inlineCallsInFunction 5 exModule ''K'' {''K'', ''helper'', ''barrier_user_named_sync''} exSAA
     = Some (True, exModule(''K'' := [[Other 0, Other 2, Call (Some BarrierIntrinsicName), Other 3, Other 1]])) \<and>
   exModule(''K'' := [[Other 0, Other 2, Call (Some BarrierIntrinsicName), Other 3, Other 1]])
     = exModule(''K'' := expandedFunction 5 exModule ''K''
         {''K'', ''helper'', ''barrier_user_named_sync''} exSAA) \<and>
   expandedFunction 5 exModule ''K'' {''K'', ''helper'', ''barrier_user_named_sync''} exSAA
     = [[Other 0, Other 2, Call (Some BarrierIntrinsicName), Other 3, Other 1]] \<and>
   inlineCallsInFunction 5 exModule ''helper'' {''K'', ''helper'', ''barrier_user_named_sync''} exSAA
     = Some (True, exModule(''helper'' := [[Other 2, Call (Some BarrierIntrinsicName), Other 3]])) \<and>
   expandedBlock 5 exModule {''K'', ''helper'', ''barrier_user_named_sync''} exSAA
       [Other 2, Call (Some ''barrier_user_named_sync''), Other 3]
     = [Other 2, Call (Some BarrierIntrinsicName), Other 3]"
proof -
  let ?SCF = "{''K'', ''helper'', ''barrier_user_named_sync''}"
  let ?MH = "exModule(''helper'' := [[Other 2, Call (Some BarrierIntrinsicName), Other 3]])"
  have f1: "finite (callEdges exModule)" by (simp add: callEdges_exModule)
  have f2: "acyclic (callEdges exModule)"
    by (simp add: callEdges_exModule rtrancl_insert acyclic_no_edges)
  have f3: "card (callEdges exModule) < 5" by (simp add: callEdges_exModule)
  let ?M' = "exModule(''K'' := [[Other 0, Other 2, Call (Some BarrierIntrinsicName), Other 3, Other 1]])"
  let ?L = "\<lparr>getBlocks = [0], isWorkItemLoop = True\<rparr>"
  let ?SC = "{''helper'', ''barrier_user_named_sync''}"
  have h1: "isSplitterFunc exSAA ''barrier_user_named_sync''" by (simp add: exSAA_def)
  have h2: "''barrier_user_named_sync'' \<noteq> BarrierIntrinsicName"
    by (simp add: BarrierIntrinsicName_def)
  have h3: "scanBlock exModule {''helper''} exSAA [Other 2] = None" by simp
  have h4: "inlineCallsInLoop 5 exModule ''K'' ?L ?SC exSAA = Some (True, ?M')"
    by (simp add: eval_nat_numeral ex_defs run_defs)
  have h5: "(0::nat) \<in> set (getBlocks ?L)" by simp
  note th = barrier_lowering [OF h1 h2, of exModule "{''helper''}" "[Other 2]" "[Other 3]"
      5 "''K''" ?L True ?M' 0]
  have c1: "scanBlock exModule {''helper''} exSAA [Other 2, Call (Some ''barrier_user_named_sync''), Other 3]
     = Some [Other 2, Call (Some BarrierIntrinsicName), Other 3]"
    using th h3 by simp
  have c2: "Call (Some ''barrier_user_named_sync'') \<notin> set (blockAt ?M' ''K'' 0)"
    using barrier_lowering [OF h1 h2, of exModule ?SC "[]" "[]" 5 "''K''" ?L True ?M' 0] h4 h5
    by blast
  have c3: "scanBlock exModule {''helper''} exSAA [Other 2, Call (Some BarrierIntrinsicName), Other 3] = None"
    using th by simp
  have g1: "inlineCallsInFunction 5 exModule ''K'' ?SCF exSAA = Some (True, ?M')"
    by (simp add: eval_nat_numeral ex_defs run_defs)
  have g2: "?M' = exModule(''K'' := expandedFunction 5 exModule ''K'' ?SCF exSAA)"
    using barrier_lowering [OF h1 h2, of exModule ?SCF "[]" "[]" 5 "''K''" ?L True ?M' 0 5]
      f1 f2 f3 g1 by blast
  have g3: "expandedFunction 5 exModule ''K'' ?SCF exSAA
     = [[Other 0, Other 2, Call (Some BarrierIntrinsicName), Other 3, Other 1]]"
    by (simp add: eval_nat_numeral ex_defs run_defs expandedFunction_def expandedBlock_def)
  have g4: "inlineCallsInFunction 5 exModule ''helper'' ?SCF exSAA = Some (True, ?MH)"
    by (simp add: eval_nat_numeral ex_defs run_defs)
  have e0: "expandedBlock 5 exModule ?SCF exSAA [Other 2] = [Other 2]"
    "expandedBlock 5 exModule ?SCF exSAA [Other 3] = [Other 3]"
    by (simp_all add: expandedBlock_def)
  have g5: "expandedBlock 5 exModule ?SCF exSAA
       [Other 2, Call (Some ''barrier_user_named_sync''), Other 3]
     = [Other 2, Call (Some BarrierIntrinsicName), Other 3]"
    using barrier_lowering [OF h1 h2, of exModule ?SCF "[Other 2]" "[Other 3]" 5 "''helper''" ?L
        True ?MH 0 5] e0
    by simp
  show ?thesis by (intro conjI h1 h2 c1 h4 c2 c3 f1 f2 f3 g1 g2 g3 g4 g5)
qed

section \<open>Idempotence\<close>

text \<open>
  C8: the pass is idempotent. Take a finite module with a non-recursive call graph in
  which the canonical barrier intrinsic has no body. A run of the pass on a function
  returns (for every fuel from some bound on), and when a run has returned, a second run
  on the module it returned, with the same annotation and loop information and call
  depth beyond the number of call edges plus one, reports "no change" and returns that
  module. This holds for both entry points.
\<close>

theorem idempotent:
  assumes "finite (callEdges M)" and "acyclic (callEdges M)"
    and "M BarrierIntrinsicName = []"
    and "card (callEdges M) + 1 < m"
  shows "(runOnFunction n M F LI SAA = Some (c, M') \<longrightarrow>
            runOnFunction m M' F LI SAA = Some (False, M')) \<and>
         (run n M F LI SAAopt = Some (pa, M') \<longrightarrow>
            run m M' F LI SAAopt = Some (PreservedAll, M')) \<and>
         (\<exists>n0. \<forall>k \<ge> n0. (\<exists>c M'. runOnFunction k M F LI SAA = Some (c, M')) \<and>
                           (\<exists>pa M'. run k M F LI SAAopt = Some (pa, M')))"
proof (intro conjI impI)
  assume first: "runOnFunction n M F LI SAA = Some (c, M')"
  show "runOnFunction m M' F LI SAA = Some (False, M')"
  proof (cases "isKernelFunc SAA F")
    case False
    with first show ?thesis by (simp add: runOnFunction_def)
  next
    case True
    with first have "inlineSplitter n M F LI SAA = Some (c, M')"
      by (simp add: runOnFunction_def)
    from second_run_inlineSplitter [OF assms(1-3) this assms(4)] True
    show ?thesis by (simp add: runOnFunction_def)
  qed
next
  assume first: "run n M F LI SAAopt = Some (pa, M')"
  show "run m M' F LI SAAopt = Some (PreservedAll, M')"
  proof (cases SAAopt)
    case None
    with first show ?thesis by (simp add: run_def)
  next
    case (Some SAA)
    show ?thesis
    proof (cases "isKernelFunc SAA F")
      case False
      with first Some show ?thesis by (simp add: run_def)
    next
      case True
      from first Some True have
        r: "(case inlineSplitter n M F LI SAA of
               None \<Rightarrow> None
             | Some (Changed, X) \<Rightarrow>
                 if \<not> Changed then Some (PreservedAll, X)
                 else Some (PreservedSplitterAnnotationAnalysis, X)) = Some (pa, M')"
        by (simp add: run_def)
      then obtain c' X where i: "inlineSplitter n M F LI SAA = Some (c', X)"
        by (cases "inlineSplitter n M F LI SAA") auto
      with r have "X = M'" by (cases c') simp_all
      with i have "inlineSplitter n M F LI SAA = Some (c', M')" by simp
      from second_run_inlineSplitter [OF assms(1-3) this assms(4)]
      have "inlineSplitter m M' F LI SAA = Some (False, M')" .
      with True Some show ?thesis by (simp add: run_def)
    qed
  qed
next
  show "\<exists>n0. \<forall>k \<ge> n0. (\<exists>c M'. runOnFunction k M F LI SAA = Some (c, M')) \<and>
                          (\<exists>pa M'. run k M F LI SAAopt = Some (pa, M'))"
    using assms(1,2) by (rule pass_total)
qed

theorem idempotent_witness:
  "finite (callEdges exModule) \<and> acyclic (callEdges exModule) \<and>
   exModule BarrierIntrinsicName = [] \<and> card (callEdges exModule) + 1 < 5 \<and>
   runOnFunction 5 exModule ''K'' noLoop exSAA =
     Some (True, exModule(''K'' := [[Other 0, Other 2, Call (Some BarrierIntrinsicName), Other 3, Other 1]])) \<and>
   runOnFunction 5
     (exModule(''K'' := [[Other 0, Other 2, Call (Some BarrierIntrinsicName), Other 3, Other 1]]))
     ''K'' noLoop exSAA =
     Some (False, exModule(''K'' := [[Other 0, Other 2, Call (Some BarrierIntrinsicName), Other 3, Other 1]])) \<and>
   run 5 exModule ''K'' (workItemLoop [0]) (Some exSAA) =
     Some (PreservedSplitterAnnotationAnalysis,
           exModule(''K'' := [[Other 0, Other 2, Call (Some BarrierIntrinsicName), Other 3, Other 1]])) \<and>
   run 5
     (exModule(''K'' := [[Other 0, Other 2, Call (Some BarrierIntrinsicName), Other 3, Other 1]]))
     ''K'' (workItemLoop [0]) (Some exSAA) =
     Some (PreservedAll, exModule(''K'' := [[Other 0, Other 2, Call (Some BarrierIntrinsicName), Other 3, Other 1]]))"
proof -
  let ?M' = "exModule(''K'' := [[Other 0, Other 2, Call (Some BarrierIntrinsicName), Other 3, Other 1]])"
  have h1: "finite (callEdges exModule)" by (simp add: callEdges_exModule)
  have h2: "acyclic (callEdges exModule)"
    by (simp add: callEdges_exModule rtrancl_insert acyclic_no_edges)
  have h3: "exModule BarrierIntrinsicName = []"
    by (simp add: exModule_def BarrierIntrinsicName_def)
  have h4: "card (callEdges exModule) + 1 < 5" by (simp add: callEdges_exModule)
  have r1: "runOnFunction 5 exModule ''K'' noLoop exSAA = Some (True, ?M')"
    by (simp add: eval_nat_numeral ex_defs run_defs)
  have r2: "run 5 exModule ''K'' (workItemLoop [0]) (Some exSAA) =
              Some (PreservedSplitterAnnotationAnalysis, ?M')"
    by (simp add: eval_nat_numeral ex_defs run_defs)
  have c1: "runOnFunction 5 ?M' ''K'' noLoop exSAA = Some (False, ?M')"
    using idempotent [OF h1 h2 h3 h4, of 5 "''K''" noLoop exSAA True ?M'] r1 by blast
  have c2: "run 5 ?M' ''K'' (workItemLoop [0]) (Some exSAA) = Some (PreservedAll, ?M')"
    using idempotent [OF h1 h2 h3 h4, of 5 "''K''" "workItemLoop [0]" exSAA True ?M' "Some exSAA"
        PreservedSplitterAnnotationAnalysis] r2 by blast
  show ?thesis by (intro conjI h1 h2 h3 h4 r1 c1 r2 c2)
qed

end
